theory Spec2Isabelle
  imports Main "HOL-Library.Sublist"
begin

text \<open>
  A model of \<open>src/generate_site.py\<close>: the MIME text extractor, the text normalizer, the
  handling of the text-generation answer, the image prompt builder and the loop of
  \<open>main\<close> with its image gate.
\<close>

section \<open>Strings\<close>

text \<open>A Python \<open>str\<close> is a sequence of Unicode code points; \<open>len\<close> counts code points.\<close>

type_synonym ustr = "nat list"

definition str :: "string \<Rightarrow> ustr" where
  "str cs = map of_char cs"

text \<open>\<open>str.isspace\<close> on one character; the same set is matched by \<open>\s\<close> in a \<open>str\<close> pattern.\<close>

definition isspace :: "nat \<Rightarrow> bool" where
  "isspace c \<longleftrightarrow> (9 \<le> c \<and> c \<le> 13) \<or> (28 \<le> c \<and> c \<le> 32) \<or> c = 133 \<or> c = 160 \<or> c = 5760
     \<or> (8192 \<le> c \<and> c \<le> 8202) \<or> c = 8232 \<or> c = 8233 \<or> c = 8239 \<or> c = 8287 \<or> c = 12288"

text \<open>\<open>s.strip()\<close>\<close>

definition strip :: "ustr \<Rightarrow> ustr" where
  "strip s = rev (dropWhile isspace (rev (dropWhile isspace s)))"

text \<open>\<open>re.sub(r"\s+", " ", s)\<close>: every maximal run of whitespace becomes one space.\<close>

function collapse_ws :: "ustr \<Rightarrow> ustr" where
  "collapse_ws [] = []"
| "collapse_ws (c # cs) =
     (if isspace c then 32 # collapse_ws (dropWhile isspace cs) else c # collapse_ws cs)"
  by pat_completeness auto
termination
  by (relation "measure length") (auto simp: length_dropWhile_le less_Suc_eq_le)

text \<open>\<open>sep.join(xs)\<close>\<close>

fun join :: "ustr \<Rightarrow> ustr list \<Rightarrow> ustr" where
  "join sep [] = []"
| "join sep [x] = x"
| "join sep (x # y # ys) = x @ sep @ join sep (y # ys)"

text \<open>\<open>s[:k]\<close> for an integer \<open>k\<close>: a negative \<open>k\<close> counts from the end.\<close>

definition slice_to :: "ustr \<Rightarrow> int \<Rightarrow> ustr" where
  "slice_to s k = (if 0 \<le> k then take (nat k) s else take (length s - nat (- k)) s)"

datatype error = SystemExit | JSONDecodeError | BinasciiError | ValueError | TypeError
  | AttributeError | IndexError | RecursionError

section \<open>Body decoding\<close>

text \<open>The base64 alphabet of \<open>binascii.a2b_base64\<close> (\<open>table_a2b_base64\<close>).\<close>

definition b64_value :: "nat \<Rightarrow> nat option" where
  "b64_value c =
     (if 65 \<le> c \<and> c \<le> 90 then Some (c - 65)
      else if 97 \<le> c \<and> c \<le> 122 then Some (c - 71)
      else if 48 \<le> c \<and> c \<le> 57 then Some (c + 4)
      else if c = 43 then Some 62
      else if c = 47 then Some 63
      else None)"

text \<open>
  The decoding loop of \<open>binascii.a2b_base64\<close> in its default, non-strict mode, over the
  remaining input: \<open>q\<close> is \<open>quad_pos\<close>, \<open>l\<close> is \<open>leftchar\<close>, \<open>out\<close> the bytes written so far.
  A pad character ends the input once the quad is complete; characters outside the alphabet
  are skipped; input that ends inside a quad raises \<open>binascii.Error\<close>.
\<close>

fun a2b_loop :: "nat \<Rightarrow> nat \<Rightarrow> nat \<Rightarrow> nat list \<Rightarrow> nat list \<Rightarrow> error + nat list" where
  "a2b_loop q pads l out [] = (if q \<noteq> 0 then Inl BinasciiError else Inr out)"
| "a2b_loop q pads l out (c # cs) =
     (if c = 61 then
        (if 2 \<le> q \<and> 4 \<le> q + (pads + 1) then Inr out
         else a2b_loop q (if 2 \<le> q then pads + 1 else pads) l out cs)
      else case b64_value c of
        None \<Rightarrow> a2b_loop q pads l out cs
      | Some v \<Rightarrow>
          (if q = 0 then a2b_loop 1 0 v out cs
           else if q = 1 then a2b_loop 2 0 (v mod 16) (out @ [l * 4 + v div 16]) cs
           else if q = 2 then a2b_loop 3 0 (v mod 4) (out @ [l * 16 + v div 4]) cs
           else a2b_loop 0 0 0 (out @ [l * 64 + v]) cs))"

text \<open>\<open>base64.b64decode(s)\<close> for a \<open>str\<close>: the text is encoded as ASCII first.\<close>

definition b64decode :: "ustr \<Rightarrow> error + nat list" where
  "b64decode s = (if \<exists>c \<in> set s. 128 \<le> c then Inl ValueError else a2b_loop 0 0 0 [] s)"

text \<open>\<open>base64.urlsafe_b64decode(s)\<close>: \<open>-\<close> and \<open>_\<close> are translated to \<open>+\<close> and \<open>/\<close>.\<close>

definition urlsafe_b64decode :: "ustr \<Rightarrow> error + nat list" where
  "urlsafe_b64decode s =
     (if \<exists>c \<in> set s. 128 \<le> c then Inl ValueError
      else a2b_loop 0 0 0 [] (map (\<lambda>c. if c = 45 then 43 else if c = 95 then 47 else c) s))"

definition is_cont :: "nat \<Rightarrow> bool" where
  "is_cont b \<longleftrightarrow> 128 \<le> b \<and> b \<le> 191"

text \<open>
  \<open>bs.decode("utf-8", errors="ignore")\<close>: an invalid start byte, a lead byte with the
  valid part of its continuation, and a sequence cut off by the end of the input are dropped.
\<close>

fun utf8_ignore :: "nat list \<Rightarrow> ustr" where
  "utf8_ignore [] = []"
| "utf8_ignore (b # bs) =
     (if b < 128 then b # utf8_ignore bs
      else if b < 194 then utf8_ignore bs
      else if b < 224 then
        (case bs of [] \<Rightarrow> []
         | c # r1 \<Rightarrow> if is_cont c then ((b - 192) * 64 + (c - 128)) # utf8_ignore r1
                     else utf8_ignore bs)
      else if b < 240 then
        (case bs of [] \<Rightarrow> []
         | c # r1 \<Rightarrow>
             if \<not> is_cont c \<or> (if c < 160 then b = 224 else b = 237) then utf8_ignore bs
             else (case r1 of [] \<Rightarrow> []
                   | d # r2 \<Rightarrow>
                       if is_cont d
                       then ((b - 224) * 4096 + (c - 128) * 64 + (d - 128)) # utf8_ignore r2
                       else utf8_ignore r1))
      else if b < 245 then
        (case bs of [] \<Rightarrow> []
         | c # r1 \<Rightarrow>
             if \<not> is_cont c \<or> (if c < 144 then b = 240 else b = 244) then utf8_ignore bs
             else (case r1 of [] \<Rightarrow> []
                   | d # r2 \<Rightarrow>
                       if \<not> is_cont d then utf8_ignore r1
                       else (case r2 of [] \<Rightarrow> []
                             | e # r3 \<Rightarrow>
                                 if is_cont e
                                 then ((b - 240) * 262144 + (c - 128) * 4096 + (d - 128) * 64
                                        + (e - 128)) # utf8_ignore r3
                                 else utf8_ignore r2)))
      else utf8_ignore bs)"

definition decode_body :: "ustr \<Rightarrow> error + ustr" where
  "decode_body data =
     (if data = [] then Inr []
      else let padding = replicate (nat ((- int (length data)) mod 4)) 61
           in case urlsafe_b64decode (data @ padding) of
                Inl e \<Rightarrow> Inl e
              | Inr bs \<Rightarrow> Inr (utf8_ignore bs))"

section \<open>HTML to text\<close>

text \<open>
  The library functions that are not modelled: \<open>html.unescape\<close>, \<open>str.lower\<close> and
  \<open>email.utils.parseaddr\<close>. They are pure and total on \<open>str\<close>.
\<close>

record stdlib =
  html_unescape :: "ustr \<Rightarrow> ustr"
  str_lower :: "ustr \<Rightarrow> ustr"
  parseaddr :: "ustr \<Rightarrow> ustr \<times> ustr"

text \<open>
  A pattern character \<open>p\<close> of a \<open>re.I\<close> pattern against a text character \<open>c\<close>, for the
  characters of the two tag names: besides the two ASCII cases, \<open>s\<close> matches U+017F and
  \<open>i\<close> matches U+0130 and U+0131.
\<close>

definition imatch :: "nat \<Rightarrow> nat \<Rightarrow> bool" where
  "imatch p c \<longleftrightarrow> c = p \<or> (97 \<le> p \<and> p \<le> 122 \<and> c + 32 = p)
     \<or> (p = 115 \<and> c = 383) \<or> (p = 105 \<and> (c = 304 \<or> c = 305))"

fun iprefix :: "ustr \<Rightarrow> ustr \<Rightarrow> bool" where
  "iprefix [] s = True"
| "iprefix (p # ps) [] = False"
| "iprefix (p # ps) (c # cs) = (imatch p c \<and> iprefix ps cs)"

text \<open>The rest of the text after the first \<open>c\<close>.\<close>

fun after_char :: "nat \<Rightarrow> ustr \<Rightarrow> ustr option" where
  "after_char c [] = None"
| "after_char c (x # xs) = (if x = c then Some xs else after_char c xs)"

text \<open>The rest of the text after the first case-insensitive occurrence of \<open>pat\<close>.\<close>

fun after_ipat :: "ustr \<Rightarrow> ustr \<Rightarrow> ustr option" where
  "after_ipat pat [] = (if pat = [] then Some [] else None)"
| "after_ipat pat (x # xs) =
     (if iprefix pat (x # xs) then Some (drop (length pat) (x # xs)) else after_ipat pat xs)"

text \<open>
  One match of \<open><tag.*?>.*?</tag>\<close> (flags \<open>re.S | re.I\<close>) at the start of the text:
  the rest after the match. The lazy quantifiers stop at the first \<open>>\<close> and at the
  first closing tag after it.
\<close>

definition match_block :: "ustr \<Rightarrow> ustr \<Rightarrow> ustr \<Rightarrow> ustr option" where
  "match_block open_tag close_tag s =
     (if iprefix open_tag s then
        (case after_char 62 (drop (length open_tag) s) of
           None \<Rightarrow> None
         | Some r \<Rightarrow> after_ipat close_tag r)
      else None)"

text \<open>\<open>re.sub(r"<tag.*?>.*?</tag>", " ", s, flags=re.S | re.I)\<close>\<close>

function sub_blocks :: "ustr \<Rightarrow> ustr \<Rightarrow> ustr \<Rightarrow> ustr" where
  "sub_blocks ot ct [] = []"
| "sub_blocks ot ct (x # xs) =
     (case match_block ot ct (x # xs) of
        Some r \<Rightarrow> 32 # sub_blocks ot ct r
      | None \<Rightarrow> x # sub_blocks ot ct xs)"
  by pat_completeness auto
termination
proof (relation "measure (\<lambda>(ot, ct, s). length s)")
  fix ot ct r :: ustr and x :: nat and xs :: ustr
  assume m: "match_block ot ct (x # xs) = Some r"
  have ac: "after_char c s = Some t \<Longrightarrow> length t < length s" for c s t
    by (induction s) (auto split: if_splits)
  have ai: "after_ipat p s = Some t \<Longrightarrow> length t \<le> length s" for p s t
    by (induction s) (auto split: if_splits)
  from m obtain r1 where 1: "after_char 62 (drop (length ot) (x # xs)) = Some r1"
    and 2: "after_ipat ct r1 = Some r"
    by (auto simp: match_block_def split: if_splits option.splits)
  from ac[OF 1] ai[OF 2] have "length r < Suc (length xs)" by simp
  then show "((ot, ct, r), ot, ct, x # xs) \<in> measure (\<lambda>(ot, ct, s). length s)" by simp
qed auto

text \<open>\<open>re.sub(r"<[^>]+>", " ", s)\<close>\<close>

function sub_tags :: "ustr \<Rightarrow> ustr" where
  "sub_tags [] = []"
| "sub_tags (x # xs) =
     (if x = 60 \<and> takeWhile (\<lambda>c. c \<noteq> 62) xs \<noteq> [] \<and> dropWhile (\<lambda>c. c \<noteq> 62) xs \<noteq> []
      then 32 # sub_tags (tl (dropWhile (\<lambda>c. c \<noteq> 62) xs))
      else x # sub_tags xs)"
  by pat_completeness auto
termination
proof (relation "measure length")
  fix x :: nat and xs :: ustr
  have "length (tl (dropWhile (\<lambda>c. c \<noteq> 62) xs)) \<le> length xs"
    using length_dropWhile_le[of "\<lambda>c. c \<noteq> 62" xs] by simp
  then show "(tl (dropWhile (\<lambda>c. c \<noteq> 62) xs), x # xs) \<in> measure length" by simp
qed auto

definition clean_html_to_text :: "stdlib \<Rightarrow> ustr \<Rightarrow> ustr" where
  "clean_html_to_text L raw_html =
     (let cleaned = sub_blocks (str ''<script'') (str ''</script>'') raw_html;
          cleaned = sub_blocks (str ''<style'') (str ''</style>'') cleaned;
          cleaned = sub_tags cleaned;
          cleaned = html_unescape L cleaned;
          cleaned = collapse_ws cleaned
      in strip cleaned)"

section \<open>MIME text extraction\<close>

text \<open>
  A message part: \<open>mimeType\<close>, the \<open>data\<close> of its \<open>body\<close> and its child \<open>parts\<close>. A missing
  key reads as the empty string or the empty list, as \<open>dict.get\<close> with its default does.
\<close>

datatype part = Part (mimeType: ustr) (body_data: ustr) (parts: "part list")

fun extract_text_from_payload :: "stdlib \<Rightarrow> part \<Rightarrow> error + ustr"
  and extract_parts :: "stdlib \<Rightarrow> part list \<Rightarrow> error + ustr list" where
  "extract_text_from_payload L (Part mime_type data ps) =
     (if mime_type = str ''text/plain'' then decode_body data
      else if mime_type = str ''text/html'' then
        (case decode_body data of Inl e \<Rightarrow> Inl e | Inr t \<Rightarrow> Inr (clean_html_to_text L t))
      else
        (case extract_parts L ps of
           Inl e \<Rightarrow> Inl e
         | Inr texts \<Rightarrow> Inr (strip (join [10] (filter (\<lambda>t. strip t \<noteq> []) texts)))))"
| "extract_parts L [] = Inr []"
| "extract_parts L (p # ps) =
     (case extract_text_from_payload L p of
        Inl e \<Rightarrow> Inl e
      | Inr t \<Rightarrow> (case extract_parts L ps of Inl e \<Rightarrow> Inl e | Inr ts \<Rightarrow> Inr (t # ts)))"

section \<open>JSON decoding\<close>

text \<open>
  The values \<open>json.loads\<close> returns. A number keeps its lexeme (an \<open>int\<close> or a \<open>float\<close> in
  Python, never a \<open>str\<close>); an object keeps its members in document order, and a lookup
  takes the last member with the key, as the \<open>dict\<close> built from the pairs does.
\<close>

datatype json = JNull | JBool bool | JNumber ustr | JString ustr | JArray "json list"
  | JObject "(ustr \<times> json) list"

definition json_ws :: "nat \<Rightarrow> bool" where
  "json_ws c \<longleftrightarrow> c = 32 \<or> c = 9 \<or> c = 10 \<or> c = 13"

definition skip_ws :: "ustr \<Rightarrow> ustr" where
  "skip_ws s = dropWhile json_ws s"

definition hexval :: "nat \<Rightarrow> nat option" where
  "hexval c =
     (if 48 \<le> c \<and> c \<le> 57 then Some (c - 48)
      else if 97 \<le> c \<and> c \<le> 102 then Some (c - 87)
      else if 65 \<le> c \<and> c \<le> 70 then Some (c - 55)
      else None)"

definition hex4 :: "nat \<Rightarrow> nat \<Rightarrow> nat \<Rightarrow> nat \<Rightarrow> nat option" where
  "hex4 a b c d =
     (case (hexval a, hexval b, hexval c, hexval d) of
        (Some x, Some y, Some z, Some w) \<Rightarrow> Some (x * 4096 + y * 256 + z * 16 + w)
      | _ \<Rightarrow> None)"

definition backslash :: "nat \<Rightarrow> nat option" where
  "backslash e =
     (if e = 34 then Some 34 else if e = 92 then Some 92 else if e = 47 then Some 47
      else if e = 98 then Some 8 else if e = 102 then Some 12 else if e = 110 then Some 10
      else if e = 114 then Some 13 else if e = 116 then Some 9 else None)"

text \<open>
  \<open>scanstring\<close> in strict mode, from the character after the opening quote: the decoded
  string and the rest after the closing quote. A high surrogate escape followed by a low
  surrogate escape is joined into one code point.
\<close>

fun scanstring :: "ustr \<Rightarrow> ustr \<Rightarrow> error + (ustr \<times> ustr)" where
  "scanstring acc [] = Inl JSONDecodeError"
| "scanstring acc (c # cs) =
     (if c = 34 then Inr (acc, cs)
      else if c = 92 then
        (case cs of
           [] \<Rightarrow> Inl JSONDecodeError
         | e # r \<Rightarrow>
             if e = 117 then
               (case r of
                  h1 # h2 # h3 # h4 # r1 \<Rightarrow>
                    (case hex4 h1 h2 h3 h4 of
                       None \<Rightarrow> Inl JSONDecodeError
                     | Some u \<Rightarrow>
                         if 55296 \<le> u \<and> u \<le> 56319 then
                           (case r1 of
                              b # v # k1 # k2 # k3 # k4 # r2 \<Rightarrow>
                                if b = 92 \<and> v = 117 then
                                  (case hex4 k1 k2 k3 k4 of
                                     None \<Rightarrow> Inl JSONDecodeError
                                   | Some u2 \<Rightarrow>
                                       if 56320 \<le> u2 \<and> u2 \<le> 57343
                                       then scanstring
                                         (acc @ [65536 + ((u - 55296) * 1024 + (u2 - 56320))]) r2
                                       else scanstring (acc @ [u]) r1)
                                else scanstring (acc @ [u]) r1
                            | _ \<Rightarrow> scanstring (acc @ [u]) r1)
                         else scanstring (acc @ [u]) r1)
                | _ \<Rightarrow> Inl JSONDecodeError)
             else (case backslash e of
                     None \<Rightarrow> Inl JSONDecodeError
                   | Some ch \<Rightarrow> scanstring (acc @ [ch]) r))
      else if c \<le> 31 then Inl JSONDecodeError
      else scanstring (acc @ [c]) cs)"

definition isdigit :: "nat \<Rightarrow> bool" where
  "isdigit c \<longleftrightarrow> 48 \<le> c \<and> c \<le> 57"

text \<open>
  The number at the start of the text, \<open>(-?(?:0|[1-9]\d*))(\.\d+)?([eE][-+]?\d+)?\<close> over
  ASCII digits, group by group: each function returns what its group matched and the rest.
\<close>

definition number_int :: "ustr \<Rightarrow> (ustr \<times> ustr) option" where
  "number_int s =
     (let (sign, r) = (case s of [] \<Rightarrow> ([], s) | c # t \<Rightarrow> if c = 45 then ([45], t) else ([], s))
      in case r of
           [] \<Rightarrow> None
         | c # r1 \<Rightarrow>
             if \<not> isdigit c then None
             else if c = 48 then Some (sign @ [c], r1)
             else Some (sign @ c # takeWhile isdigit r1, dropWhile isdigit r1))"

definition number_frac :: "ustr \<Rightarrow> ustr \<times> ustr" where
  "number_frac s =
     (case s of
        p # d # t \<Rightarrow>
          if p = 46 \<and> isdigit d then (p # d # takeWhile isdigit t, dropWhile isdigit t)
          else ([], s)
      | _ \<Rightarrow> ([], s))"

definition number_exp :: "ustr \<Rightarrow> ustr \<times> ustr" where
  "number_exp s =
     (case s of
        [] \<Rightarrow> ([], s)
      | e # t \<Rightarrow>
          if e = 101 \<or> e = 69 then
            (let (sg, t2) = (case t of
                               [] \<Rightarrow> ([], t)
                             | x # t1 \<Rightarrow> if x = 43 \<or> x = 45 then ([x], t1) else ([], t))
             in if takeWhile isdigit t2 \<noteq> []
                then (e # sg @ takeWhile isdigit t2, dropWhile isdigit t2)
                else ([], s))
          else ([], s))"

text \<open>The match: its integer part, its fraction and exponent, and the rest.\<close>

definition match_number :: "ustr \<Rightarrow> (ustr \<times> ustr \<times> ustr) option" where
  "match_number s =
     (case number_int s of
        None \<Rightarrow> None
      | Some (integer, r2) \<Rightarrow>
          (let (frac, r3) = number_frac r2;
               (ex, r4) = number_exp r3
           in Some (integer, frac @ ex, r4)))"

text \<open>
  \<open>scan_once\<close> with the object and array loops. The text of an object's members starts
  after the opening quote of the next key; the text of an array's elements starts at the
  next value. Every call takes one unit of \<open>fuel\<close>.
\<close>

fun scan_once :: "nat \<Rightarrow> ustr \<Rightarrow> error + (json \<times> ustr)"
  and parse_members :: "nat \<Rightarrow> (ustr \<times> json) list \<Rightarrow> ustr \<Rightarrow> error + (json \<times> ustr)"
  and parse_elements :: "nat \<Rightarrow> json list \<Rightarrow> ustr \<Rightarrow> error + (json \<times> ustr)" where
  "scan_once 0 s = Inl RecursionError"
| "scan_once (Suc n) [] = Inl JSONDecodeError"
| "scan_once (Suc n) (c # cs) =
     (if c = 34 then
        (case scanstring [] cs of Inl e \<Rightarrow> Inl e | Inr (t, r) \<Rightarrow> Inr (JString t, r))
      else if c = 123 then
        (case skip_ws cs of
           [] \<Rightarrow> Inl JSONDecodeError
         | d # r \<Rightarrow>
             if d = 125 then Inr (JObject [], r)
             else if d = 34 then parse_members n [] r
             else Inl JSONDecodeError)
      else if c = 91 then
        (case skip_ws cs of
           [] \<Rightarrow> Inl JSONDecodeError
         | d # r \<Rightarrow> if d = 93 then Inr (JArray [], r) else parse_elements n [] (d # r))
      else if take 4 (c # cs) = str ''null'' then Inr (JNull, drop 4 (c # cs))
      else if take 4 (c # cs) = str ''true'' then Inr (JBool True, drop 4 (c # cs))
      else if take 5 (c # cs) = str ''false'' then Inr (JBool False, drop 5 (c # cs))
      else
        (case match_number (c # cs) of
           Some (integer, fe, r) \<Rightarrow>
             if fe = [] \<and> 4300 < length (filter isdigit integer) then Inl ValueError
             else Inr (JNumber (integer @ fe), r)
         | None \<Rightarrow>
             if take 3 (c # cs) = str ''NaN'' then Inr (JNumber (str ''NaN''), drop 3 (c # cs))
             else if take 8 (c # cs) = str ''Infinity''
             then Inr (JNumber (str ''Infinity''), drop 8 (c # cs))
             else if take 9 (c # cs) = str ''-Infinity''
             then Inr (JNumber (str ''-Infinity''), drop 9 (c # cs))
             else Inl JSONDecodeError))"
| "parse_members 0 acc s = Inl RecursionError"
| "parse_members (Suc n) acc s =
     (case scanstring [] s of
        Inl e \<Rightarrow> Inl e
      | Inr (key, r) \<Rightarrow>
          (case skip_ws r of
             [] \<Rightarrow> Inl JSONDecodeError
           | c # r1 \<Rightarrow>
               if c \<noteq> 58 then Inl JSONDecodeError
               else
                 (case scan_once n (skip_ws r1) of
                    Inl e \<Rightarrow> Inl e
                  | Inr (v, r2) \<Rightarrow>
                      (case skip_ws r2 of
                         [] \<Rightarrow> Inl JSONDecodeError
                       | d # r3 \<Rightarrow>
                           if d = 125 then Inr (JObject (acc @ [(key, v)]), r3)
                           else if d \<noteq> 44 then Inl JSONDecodeError
                           else
                             (case skip_ws r3 of
                                [] \<Rightarrow> Inl JSONDecodeError
                              | q # r4 \<Rightarrow>
                                  if q \<noteq> 34 then Inl JSONDecodeError
                                  else parse_members n (acc @ [(key, v)]) r4)))))"
| "parse_elements 0 acc s = Inl RecursionError"
| "parse_elements (Suc n) acc s =
     (case scan_once n s of
        Inl e \<Rightarrow> Inl e
      | Inr (v, r) \<Rightarrow>
          (case skip_ws r of
             [] \<Rightarrow> Inl JSONDecodeError
           | d # r1 \<Rightarrow>
               if d = 93 then Inr (JArray (acc @ [v]), r1)
               else if d \<noteq> 44 then Inl JSONDecodeError
               else parse_elements n (acc @ [v]) (skip_ws r1)))"

text \<open>
  \<open>json.loads(s)\<close> for a \<open>str\<close>: one value between optional whitespace. The fuel is more
  than twice the length of the text, which no chain of calls uses up (\<open>json_loads_fuel\<close>
  below); the interpreter's own recursion limit on deeply nested documents is not modelled.
\<close>

definition json_loads :: "ustr \<Rightarrow> error + json" where
  "json_loads s =
     (if take 1 s = [65279] then Inl JSONDecodeError
      else case scan_once (Suc (Suc (length s + length s))) (skip_ws s) of
             Inl e \<Rightarrow> Inl e
           | Inr (v, r) \<Rightarrow> if skip_ws r = [] then Inr v else Inl JSONDecodeError)"

section \<open>Environment and collaborators\<close>

record candidate =
  finishReason :: "ustr option"
  content_parts :: "ustr list"

record text_response =
  text_status :: int
  candidates :: "candidate list"

record image_response =
  image_status :: int
  image_data :: "ustr option list option"

record message =
  headers :: "(ustr \<times> ustr) list"
  payload :: part

text \<open>
  What a run reads from outside: the process environment, the directory of the images, and
  the answer of each collaborator to a request (a message id, an input text, an image prompt).
\<close>

record world =
  environ :: "ustr \<rightharpoonup> ustr"
  images_dir :: ustr
  gmail_message :: "ustr \<Rightarrow> int \<times> message"
  gemini_text :: "ustr \<Rightarrow> text_response"
  gemini_image :: "ustr \<Rightarrow> image_response"

text \<open>
  What a run changes: the files that exist, and the requests sent to the text-generation and
  image-generation collaborators, in order.
\<close>

record state =
  files :: "ustr set"
  text_calls :: "ustr list"
  image_calls :: "(ustr \<times> ustr) list"

definition env :: "(ustr \<rightharpoonup> ustr) \<Rightarrow> ustr \<Rightarrow> ustr option \<Rightarrow> bool \<Rightarrow> error + ustr" where
  "env E name dflt required =
     (let value = (case E name of Some v \<Rightarrow> Some v | None \<Rightarrow> dflt)
      in if required \<and> (value = None \<or> value = Some []) then Inl SystemExit
         else Inr (case value of None \<Rightarrow> [] | Some v \<Rightarrow> v))"

section \<open>Translation and summary\<close>

text \<open>\<open>s.find(c)\<close> and \<open>s.rfind(c)\<close> for one character: the index, or \<open>-1\<close>.\<close>

fun find_char :: "ustr \<Rightarrow> nat \<Rightarrow> int" where
  "find_char [] c = - 1"
| "find_char (x # xs) c = (if x = c then 0 else let i = find_char xs c in if i = - 1 then - 1 else i + 1)"

definition rfind_char :: "ustr \<Rightarrow> nat \<Rightarrow> int" where
  "rfind_char s c = (let i = find_char (rev s) c in if i = - 1 then - 1 else int (length s) - 1 - i)"

text \<open>\<open>s[i:j]\<close> for indices that are not negative.\<close>

definition slice :: "ustr \<Rightarrow> int \<Rightarrow> int \<Rightarrow> ustr" where
  "slice s i j = take (nat j - nat i) (drop (nat i) s)"

text \<open>\<open>re.sub(r"^```(?:json)?\s*", "", s)\<close>\<close>

definition strip_fence_start :: "ustr \<Rightarrow> ustr" where
  "strip_fence_start s =
     (if take 3 s = str ''```'' then
        (let r = drop 3 s;
             r = (if take 4 r = str ''json'' then drop 4 r else r)
         in dropWhile isspace r)
      else s)"

text \<open>
  \<open>re.sub(r"\s*```$", "", s)\<close>: the fence at the end of the text, or before a final
  newline, goes with the whitespace before it.
\<close>

definition strip_fence_end :: "ustr \<Rightarrow> ustr" where
  "strip_fence_end s =
     (let r = rev s
      in if take 3 r = str ''```'' then rev (dropWhile isspace (drop 3 r))
         else if take 4 r = 10 # str ''```'' then rev (dropWhile isspace (drop 4 r)) @ [10]
         else s)"

definition parse_loose_json :: "ustr \<Rightarrow> error + json" where
  "parse_loose_json text_value =
     (case json_loads text_value of
        Inl JSONDecodeError \<Rightarrow>
          (let start = find_char text_value 123;
               end = rfind_char text_value 125
           in if start \<noteq> - 1 \<and> end \<noteq> - 1 \<and> end > start
              then json_loads (slice text_value start (end + 1))
              else Inl JSONDecodeError)
      | r \<Rightarrow> r)"

text \<open>
  \<open>re.search(r"\{.*\}", s, flags=re.S)\<close>: the text from the first \<open>{\<close> to the last \<open>}\<close>
  after it.
\<close>

definition search_braces :: "ustr \<Rightarrow> ustr option" where
  "search_braces s =
     (let start = find_char s 123;
          end = rfind_char s 125
      in if start \<noteq> - 1 \<and> end > start then Some (slice s start (end + 1)) else None)"

definition degraded :: "ustr \<Rightarrow> ustr \<Rightarrow> json" where
  "degraded text summary =
     JObject [(str ''language'', JString (str ''unknown'')),
              (str ''translated_text'', JString text),
              (str ''summary_zh_tw'', JString summary)]"

definition summary_safety :: ustr where
  "summary_safety = [65288, 20839, 23481, 22240, 23433, 20840, 24615, 38480, 21046, 28961,
     27861, 25688, 35201, 65289]"

definition summary_empty :: ustr where
  "summary_empty = [65288, 20839, 23481, 25688, 35201, 22833, 25943, 65289]"

definition summary_parse_failed :: ustr where
  "summary_parse_failed = [65288, 20839, 23481, 25688, 35201, 35299, 26512, 22833, 25943, 65289]"

text \<open>
  The loop over the candidates: the text gathered so far, or the first candidate whose
  finish reason is \<open>SAFETY\<close>.
\<close>

fun collect_candidates :: "ustr \<Rightarrow> candidate list \<Rightarrow> ustr option" where
  "collect_candidates output_text [] = Some output_text"
| "collect_candidates output_text (c # cs) =
     (if finishReason c = Some (str ''SAFETY'') then None
      else collect_candidates (output_text @ concat (content_parts c)) cs)"

text \<open>The function from the response on: \<open>data\<close> is the decoded body of a 200 answer.\<close>

definition parse_response :: "ustr \<Rightarrow> candidate list \<Rightarrow> error + json" where
  "parse_response text cands =
     (case collect_candidates [] cands of
        None \<Rightarrow> Inr (degraded text summary_safety)
      | Some output_text \<Rightarrow>
          (let output_text = strip output_text
           in if output_text = [] then Inr (degraded text summary_empty)
              else
                (let output_text = strip_fence_start output_text;
                     output_text = strip_fence_end output_text
                 in case parse_loose_json output_text of
                      Inl JSONDecodeError \<Rightarrow>
                        (case search_braces output_text of
                           Some m \<Rightarrow> parse_loose_json m
                         | None \<Rightarrow> Inr (degraded text summary_parse_failed))
                    | r \<Rightarrow> r)))"

definition gemini_translate_and_summarize ::
  "world \<Rightarrow> state \<Rightarrow> ustr \<Rightarrow> (error + json) \<times> state" where
  "gemini_translate_and_summarize W st text =
     (case env (environ W) (str ''GEMINI_API_KEY'') None True of
        Inl e \<Rightarrow> (Inl e, st)
      | Inr api_key \<Rightarrow>
          (let st = st\<lparr>text_calls := text_calls st @ [text]\<rparr>;
               resp = gemini_text W text
           in if text_status resp \<noteq> 200 then (Inl SystemExit, st)
              else (parse_response text (candidates resp), st)))"

section \<open>Normalizer, category, source, thumbnail, image prompt\<close>

definition trunc_marker :: ustr where
  "trunc_marker = [10, 10, 91, 20839, 23481, 24050, 25130, 26039, 93]"

definition normalize_text :: "ustr \<Rightarrow> int \<Rightarrow> ustr" where
  "normalize_text text max_chars =
     (let text = strip (collapse_ws text)
      in if int (length text) > max_chars then slice_to text max_chars @ trunc_marker
         else text)"

fun get_header :: "stdlib \<Rightarrow> (ustr \<times> ustr) list \<Rightarrow> ustr \<Rightarrow> ustr" where
  "get_header L [] name = []"
| "get_header L ((n, v) # hs) name =
     (if str_lower L n = str_lower L name then v else get_header L hs name)"

definition closer :: "nat \<Rightarrow> bool" where
  "closer c \<longleftrightarrow> c = 93 \<or> c = 65289 \<or> c = 12305 \<or> c = 41"

text \<open>\<open>re.match(r"^[\[\<dots>(]([^\]\<dots>\)]+)[\]\<dots>\)]\s*", subject)\<close>, then group 1 stripped.\<close>

definition extract_category :: "ustr \<Rightarrow> ustr" where
  "extract_category subject =
     (case subject of
        [] \<Rightarrow> [26410, 20998, 39006]
      | c # cs \<Rightarrow>
          if (c = 91 \<or> c = 12304 \<or> c = 40)
             \<and> takeWhile (\<lambda>x. \<not> closer x) cs \<noteq> [] \<and> dropWhile (\<lambda>x. \<not> closer x) cs \<noteq> []
          then strip (takeWhile (\<lambda>x. \<not> closer x) cs)
          else [26410, 20998, 39006])"

text \<open>\<open>s.strip('"')\<close>\<close>

definition strip_quotes :: "ustr \<Rightarrow> ustr" where
  "strip_quotes s = rev (dropWhile (\<lambda>c. c = 34) (rev (dropWhile (\<lambda>c. c = 34) s)))"

definition extract_source :: "stdlib \<Rightarrow> ustr \<Rightarrow> ustr \<times> ustr" where
  "extract_source L from_header =
     (let (name, email_addr) = parseaddr L from_header;
          name = strip_quotes (strip name);
          name = (if name = [] then email_addr else name);
          domain = (if 64 \<in> set email_addr
                    then str_lower L (tl (dropWhile (\<lambda>c. c \<noteq> 64) email_addr)) else [])
      in (if name = [] then [26410, 30693, 20358, 28304] else name,
          if domain = [] then str ''unknown'' else domain))"

text \<open>\<open>html.escape(s)\<close> with \<open>quote=True\<close>\<close>

definition html_escape :: "ustr \<Rightarrow> ustr" where
  "html_escape s = concat (map (\<lambda>c.
     if c = 38 then str ''&amp;'' else if c = 60 then str ''&lt;''
     else if c = 62 then str ''&gt;'' else if c = 34 then str ''&quot;''
     else if c = 39 then str ''&#x27;'' else [c]) s)"

text \<open>The two characters \<open>\"\<close> that the thumbnail templates write around an attribute.\<close>

definition bq :: ustr where
  "bq = [92, 34]"

definition colors :: "(ustr \<times> ustr \<times> ustr) list" where
  "colors = [(str ''#e0f2fe'', str ''#bae6fd'', str ''#93c5fd''),
             (str ''#ede9fe'', str ''#ddd6fe'', str ''#c4b5fd''),
             (str ''#ffe4e6'', str ''#fecdd3'', str ''#fda4af''),
             (str ''#dcfce7'', str ''#bbf7d0'', str ''#86efac''),
             (str ''#fef3c7'', str ''#fde68a'', str ''#fcd34d'')]"

definition build_thumb_placeholder :: "ustr \<Rightarrow> ustr" where
  "build_thumb_placeholder subject =
     (let idx = sum_list subject mod length colors;
          (c1, c2, c3) = colors ! idx
      in str ''<div class='' @ bq @ str ''thumb thumb--placeholder'' @ bq @ str '' style='' @ bq
         @ str ''background: linear-gradient(140deg, '' @ c1 @ str '' 0%, '' @ c2
         @ str '' 45%, '' @ c3 @ str '' 100%);'' @ bq @ str ''></div>'')"

definition build_thumb_html :: "(ustr \<rightharpoonup> ustr) \<Rightarrow> ustr \<Rightarrow> ustr \<Rightarrow> ustr" where
  "build_thumb_html E image_rel_path subject =
     (if image_rel_path \<noteq> [] then
        str ''<img class='' @ bq @ str ''thumb'' @ bq @ str '' src='' @ bq
        @ html_escape image_rel_path @ bq @ str '' alt='' @ bq @ bq @ str ''>''
      else if env E (str ''SHOW_THUMB_PLACEHOLDER'') (Some (str ''0'')) False = Inr (str ''1'')
      then build_thumb_placeholder subject else [])"

text \<open>
  The lazy \<open>.*?\<close> of the subject pattern followed by its closing class \<open>[\]\<dots>)]\<close>: the rest
  after the first closing character, unless a newline comes first.
\<close>

fun close_scan :: "ustr \<Rightarrow> ustr option" where
  "close_scan [] = None"
| "close_scan (x # xs) =
     (if x = 93 \<or> x = 12305 \<or> x = 41 then Some xs
      else if x = 10 then None
      else close_scan xs)"

text \<open>\<open>re.sub(r"^[\[\<dots>(].*?[\]\<dots>)]\s*", "", subject)\<close>\<close>

definition strip_tag :: "ustr \<Rightarrow> ustr" where
  "strip_tag subject =
     (case subject of
        [] \<Rightarrow> []
      | c # cs \<Rightarrow>
          if c = 91 \<or> c = 12304 \<or> c = 40 then
            (case close_scan cs of None \<Rightarrow> subject | Some r \<Rightarrow> dropWhile isspace r)
          else subject)"

definition prompt_preamble :: ustr where
  "prompt_preamble = str ''Minimal, soft, calm Apple News-style illustration. ''
     @ str ''Abstract, gentle gradients, no text, no logos, no watermark, no people. ''"

definition build_image_prompt :: "ustr \<Rightarrow> ustr \<Rightarrow> ustr" where
  "build_image_prompt subject summary =
     (let clean_subject = strip (strip_tag subject);
          clean_summary = strip (collapse_ws summary);
          clean_summary = (if length clean_summary > 400 then take 400 clean_summary
                           else clean_summary)
      in prompt_preamble @ str ''Inspired by: '' @ clean_subject @ str ''. ''
         @ str ''Summary: '' @ clean_summary)"

text \<open>
  \<open>generate_image\<close>: one request to the image collaborator, then the file is created and
  the decoded bytes are written to it. Creating the directory and the file is taken to succeed.
\<close>

definition generate_image :: "world \<Rightarrow> state \<Rightarrow> ustr \<Rightarrow> ustr \<Rightarrow> (error + unit) \<times> state" where
  "generate_image W st prompt out_path =
     (case env (environ W) (str ''GEMINI_API_KEY'') None True of
        Inl e \<Rightarrow> (Inl e, st)
      | Inr api_key \<Rightarrow>
          (let st = st\<lparr>image_calls := image_calls st @ [(prompt, out_path)]\<rparr>;
               resp = gemini_image W prompt
           in if image_status resp \<noteq> 200 then (Inl SystemExit, st)
              else
                (case (case image_data resp of None \<Rightarrow> [None] | Some ds \<Rightarrow> ds) of
                   [] \<Rightarrow> (Inl IndexError, st)
                 | d # _ \<Rightarrow>
                     (case d of
                        None \<Rightarrow> (Inl SystemExit, st)
                      | Some b64 \<Rightarrow>
                          if b64 = [] then (Inl SystemExit, st)
                          else
                            (let st = st\<lparr>files := insert out_path (files st)\<rparr>
                             in case b64decode b64 of
                                  Inl e \<Rightarrow> (Inl e, st)
                                | Inr bytes \<Rightarrow> (Inr (), st))))))"

section \<open>The loop of main\<close>

record entry =
  entry_id :: ustr
  entry_subject :: ustr
  entry_from :: ustr
  entry_date :: ustr
  original_text :: ustr
  translated_text :: ustr
  summary_zh_tw :: ustr
  category :: ustr
  source :: ustr
  thumb_html :: ustr

text \<open>\<open>ai.get(key, "")\<close>: only a \<open>dict\<close> has \<open>get\<close>.\<close>

definition ai_get :: "json \<Rightarrow> ustr \<Rightarrow> error + json" where
  "ai_get ai key =
     (case ai of
        JObject ps \<Rightarrow> Inr (case map_of (rev ps) key of None \<Rightarrow> JString [] | Some v \<Rightarrow> v)
      | _ \<Rightarrow> Inl AttributeError)"

text \<open>\<open>normalize_text\<close> on a decoded value: \<open>re.sub\<close> takes a \<open>str\<close> only.\<close>

definition normalize_value :: "json \<Rightarrow> int \<Rightarrow> error + ustr" where
  "normalize_value v max_chars =
     (case v of JString s \<Rightarrow> Inr (normalize_text s max_chars) | _ \<Rightarrow> Inl TypeError)"

text \<open>\<open>os.path.join(a, b)\<close> on POSIX\<close>

definition path_join :: "ustr \<Rightarrow> ustr \<Rightarrow> ustr" where
  "path_join a b =
     (if take 1 b = [47] then b
      else if a = [] \<or> last a = 47 then a @ b
      else a @ [47] @ b)"

text \<open>
  The two fields read from the answer, each normalized with its own cap:
  \<open>translated_text\<close> first, then \<open>summary_zh_tw\<close>.
\<close>

definition ai_fields :: "json \<Rightarrow> error + (ustr \<times> ustr)" where
  "ai_fields ai =
     (case ai_get ai (str ''translated_text'') of
        Inl e \<Rightarrow> Inl e
      | Inr tv \<Rightarrow>
          (case normalize_value tv 12000 of
             Inl e \<Rightarrow> Inl e
           | Inr translated \<Rightarrow>
               (case ai_get ai (str ''summary_zh_tw'') of
                  Inl e \<Rightarrow> Inl e
                | Inr sv \<Rightarrow>
                    (case normalize_value sv 4000 of
                       Inl e \<Rightarrow> Inl e
                     | Inr summary \<Rightarrow> Inr (translated, summary)))))"

text \<open>
  The image block of the loop body: the relative path of the image, after the image has
  been generated unless images are disabled or the file is already there.
\<close>

definition image_step ::
  "world \<Rightarrow> state \<Rightarrow> ustr \<Rightarrow> ustr \<Rightarrow> ustr \<Rightarrow> ustr \<Rightarrow> (error + ustr) \<times> state" where
  "image_step W st msg_id subject summary translated =
     (if env (environ W) (str ''ENABLE_IMAGE_GEN'') (Some (str ''1'')) False = Inr (str ''1'')
      then
        (let image_name = msg_id @ str ''.png'';
             image_path = path_join (images_dir W) image_name;
             image_rel_path = str ''images/'' @ image_name
         in if image_path \<notin> files st then
              (case generate_image W st
                      (build_image_prompt subject
                         (if summary \<noteq> [] then summary else translated))
                      image_path of
                 (Inl e, st') \<Rightarrow> (Inl e, st')
               | (Inr u, st') \<Rightarrow> (Inr image_rel_path, st'))
            else (Inr image_rel_path, st))
      else (Inr [], st))"

text \<open>
  One pass of the loop body for \<open>msg_id\<close>: the entries and the state after it, or the
  exception that ends the run.
\<close>

definition process_message ::
  "stdlib \<Rightarrow> world \<Rightarrow> entry list \<times> state \<Rightarrow> ustr \<Rightarrow> (error + entry list) \<times> state" where
  "process_message L W es_st msg_id =
     (let (entries, st) = es_st;
          (status, msg) = gmail_message W msg_id
      in if status \<noteq> 200 then (Inl SystemExit, st)
         else
           (let subject = get_header L (headers msg) (str ''Subject'');
                subject = (if subject = [] then [40, 28961, 27161, 38988, 41] else subject);
                from_header = get_header L (headers msg) (str ''From'');
                date_header = get_header L (headers msg) (str ''Date'')
            in case extract_text_from_payload L (payload msg) of
                 Inl e \<Rightarrow> (Inl e, st)
               | Inr extracted \<Rightarrow>
                   (let raw_text = normalize_text extracted 12000
                    in if raw_text = [] then (Inr entries, st)
                       else
                         (case gemini_translate_and_summarize W st raw_text of
                            (Inl e, st1) \<Rightarrow> (Inl e, st1)
                          | (Inr ai, st1) \<Rightarrow>
                              (case ai_fields ai of
                                 Inl e \<Rightarrow> (Inl e, st1)
                               | Inr (translated, summary) \<Rightarrow>
                                   (case image_step W st1 msg_id subject summary translated of
                                      (Inl e, st2) \<Rightarrow> (Inl e, st2)
                                    | (Inr image_rel_path, st2) \<Rightarrow>
                                        (Inr (entries @
                                           [\<lparr>entry_id = msg_id,
                                             entry_subject = subject,
                                             entry_from = from_header,
                                             entry_date = date_header,
                                             original_text = raw_text,
                                             translated_text =
                                               (if translated \<noteq> [] then translated
                                                else raw_text),
                                             summary_zh_tw =
                                               (if summary \<noteq> [] then summary
                                                else [40, 28961, 25688, 35201, 41]),
                                             category = extract_category subject,
                                             source = fst (extract_source L from_header),
                                             thumb_html =
                                               build_thumb_html (environ W) image_rel_path
                                                 subject\<rparr>]),
                                         st2)))))))"

text \<open>The loop over the message ids: it stops at the first exception.\<close>

fun main_loop ::
  "stdlib \<Rightarrow> world \<Rightarrow> entry list \<times> state \<Rightarrow> ustr list \<Rightarrow> (error + entry list) \<times> state" where
  "main_loop L W (entries, st) [] = (Inr entries, st)"
| "main_loop L W (entries, st) (msg_id # ids) =
     (case process_message L W (entries, st) msg_id of
        (Inl e, st') \<Rightarrow> (Inl e, st')
      | (Inr entries', st') \<Rightarrow> main_loop L W (entries', st') ids)"

section \<open>Notions the properties are stated with\<close>

text \<open>\<open>s.rstrip()\<close>\<close>

definition rstrip :: "ustr \<Rightarrow> ustr" where
  "rstrip s = rev (dropWhile isspace (rev s))"

text \<open>
  A text as \<open>collapse_ws\<close> leaves it: every whitespace character is a space, and no two
  of them are adjacent.
\<close>

fun collapsed :: "ustr \<Rightarrow> bool" where
  "collapsed [] = True"
| "collapsed [c] = (isspace c \<longrightarrow> c = 32)"
| "collapsed (c # d # cs) = ((isspace c \<longrightarrow> c = 32 \<and> \<not> isspace d) \<and> collapsed (d # cs))"



text \<open>The decoded body of a leaf whose data decodes.\<close>

definition decoded :: "ustr \<Rightarrow> ustr" where
  "decoded data = (case decode_body data of Inr t \<Rightarrow> t | Inl e \<Rightarrow> [])"

text \<open>The characters of the URL-safe base64 alphabet.\<close>

definition urlsafe_char :: "nat \<Rightarrow> bool" where
  "urlsafe_char c \<longleftrightarrow> (65 \<le> c \<and> c \<le> 90) \<or> (97 \<le> c \<and> c \<le> 122) \<or> (48 \<le> c \<and> c \<le> 57)
     \<or> c = 45 \<or> c = 95"

text \<open>
  The library functions on ASCII text without character references and on a bare address:
  the instance the examples below are evaluated with.
\<close>

definition ascii_lib :: stdlib where
  "ascii_lib = \<lparr>html_unescape = (\<lambda>s. s),
                 str_lower = map (\<lambda>c. if 65 \<le> c \<and> c \<le> 90 then c + 32 else c),
                 parseaddr = (\<lambda>s. ([], s))\<rparr>"

text \<open>
  An example of a run's surroundings. Message \<open>m1\<close> has the plain text \<open>x\<close> (data \<open>eA\<close>),
  message \<open>m3\<close> the plain text \<open>y\<close> (data \<open>eQ\<close>) inside a container, every other message has
  no text. The text collaborator answers \<open>x\<close> with a candidate blocked for safety, \<open>y\<close>
  with the object \<open>{"summary_zh_tw":""}\<close> and any other text with \<open>{abc}\<close>. The image
  collaborator answers every prompt with the image data \<open>eA==\<close>.
\<close>

definition demo_message :: "ustr \<Rightarrow> message" where
  "demo_message i =
     (if i = str ''m1'' then
        \<lparr>headers = [(str ''Subject'', str ''[Tech) Hi''), (str ''From'', str ''a@b.c'')],
         payload = Part (str ''text/plain'') (str ''eA'') []\<rparr>
      else if i = str ''m3'' then
        \<lparr>headers = [],
         payload = Part (str ''multipart/mixed'') [] [Part (str ''text/plain'') (str ''eQ'') []]\<rparr>
      else \<lparr>headers = [], payload = Part (str ''multipart/mixed'') [] []\<rparr>)"

definition demo_answer :: "ustr \<Rightarrow> text_response" where
  "demo_answer t =
     \<lparr>text_status = 200,
      candidates =
        [if t = str ''x'' then \<lparr>finishReason = Some (str ''SAFETY''), content_parts = []\<rparr>
         else if t = str ''y'' then
           \<lparr>finishReason = Some (str ''STOP''),
            content_parts = [[123, 34] @ str ''summary_zh_tw'' @ [34, 58, 34, 34, 125]]\<rparr>
         else \<lparr>finishReason = Some (str ''STOP''), content_parts = [str ''{abc}'']\<rparr>]\<rparr>"

definition demo_world :: world where
  "demo_world =
     \<lparr>environ = [str ''GEMINI_API_KEY'' \<mapsto> str ''k''],
      images_dir = str ''public/images'',
      gmail_message = (\<lambda>i. (200, demo_message i)),
      gemini_text = demo_answer,
      gemini_image = (\<lambda>p. \<lparr>image_status = 200, image_data = Some [Some (str ''eA=='')]\<rparr>)\<rparr>"

definition empty_state :: state where
  "empty_state = \<lparr>files = {}, text_calls = [], image_calls = []\<rparr>"

text \<open>The two character classes of the subject pattern of \<open>build_image_prompt\<close>.\<close>

definition tag_open :: "nat \<Rightarrow> bool" where
  "tag_open c \<longleftrightarrow> c = 91 \<or> c = 12304 \<or> c = 40"

definition tag_close :: "nat \<Rightarrow> bool" where
  "tag_close c \<longleftrightarrow> c = 93 \<or> c = 12305 \<or> c = 41"

text \<open>The subject of the spec's example, with its tag between U+3010 and U+3011.\<close>

definition tech_tag :: ustr where
  "tech_tag = 12304 # str ''Tech'' @ [12305]"

definition tech_subject :: ustr where
  "tech_subject = tech_tag @ str ''Big news today''"


section \<open>Text normalizer\<close>

lemma hd_dropWhile_nonspace: "dropWhile isspace cs = d # ds \<Longrightarrow> \<not> isspace d"
  by (metis hd_dropWhile list.sel(1) list.distinct(1))

lemma collapsed_collapse_ws: "collapsed (collapse_ws t)"
proof (induction t rule: collapse_ws.induct)
  case 1
  show ?case by simp
next
  case (2 c cs)
  show ?case
  proof (cases "isspace c")
    case True
    show ?thesis
    proof (cases "dropWhile isspace cs")
      case Nil
      with True have "collapse_ws (c # cs) = [32]"
        by (simp del: dropWhile_eq_Nil_conv)
      then show ?thesis by simp
    next
      case (Cons d ds)
      then have nd: "\<not> isspace d" by (rule hd_dropWhile_nonspace)
      from 2(1)[OF True] Cons nd True show ?thesis by simp
    qed
  next
    case False
    with 2(2) show ?thesis by (cases "collapse_ws cs") auto
  qed
qed

lemma collapsed_tl: "collapsed (c # cs) \<Longrightarrow> collapsed cs"
  by (cases cs) auto

lemma collapsed_dropWhile: "collapsed s \<Longrightarrow> collapsed (dropWhile isspace s)"
  by (induction s) (auto dest: collapsed_tl)

lemma rstrip_Nil: "rstrip [] = []"
  by (simp add: rstrip_def)

lemma rstrip_Cons:
  "rstrip (c # cs) = (if rstrip cs = [] \<and> isspace c then [] else c # rstrip cs)"
  by (auto simp: rstrip_def dropWhile_append)

lemma collapsed_rstrip: "collapsed s \<Longrightarrow> collapsed (rstrip s)"
proof (induction s rule: collapsed.induct)
  case 1
  show ?case by (simp add: rstrip_Nil)
next
  case (2 c)
  then show ?case by (simp add: rstrip_Cons rstrip_Nil)
next
  case (3 c d cs)
  then have ih: "collapsed (rstrip (d # cs))" by simp
  show ?case
  proof (cases "rstrip (d # cs)")
    case Nil
    with 3 show ?thesis by (simp add: rstrip_Cons[of c])
  next
    case (Cons e es)
    then have "e = d" by (simp add: rstrip_Cons[of d] split: if_splits)
    with 3 ih Cons show ?thesis by (simp add: rstrip_Cons[of c])
  qed
qed

lemma strip_rstrip: "strip s = rstrip (dropWhile isspace s)"
  by (simp add: strip_def rstrip_def)

lemma collapsed_strip: "collapsed s \<Longrightarrow> collapsed (strip s)"
  by (simp add: strip_rstrip collapsed_rstrip collapsed_dropWhile)

lemma rstrip_last: "rstrip s \<noteq> [] \<Longrightarrow> \<not> isspace (last (rstrip s))"
  by (induction s) (auto simp: rstrip_Cons rstrip_Nil split: if_splits)

lemma rstrip_hd: "rstrip s \<noteq> [] \<Longrightarrow> hd (rstrip s) = hd s"
  by (cases s) (auto simp: rstrip_Cons rstrip_Nil split: if_splits)

lemma strip_last: "strip s \<noteq> [] \<Longrightarrow> \<not> isspace (last (strip s))"
  by (simp add: strip_rstrip rstrip_last)

lemma strip_hd: "strip s \<noteq> [] \<Longrightarrow> \<not> isspace (hd (strip s))"
proof -
  assume ne: "strip s \<noteq> []"
  then have "dropWhile isspace s \<noteq> []" by (metis rstrip_Nil strip_rstrip)
  then have "\<not> isspace (hd (dropWhile isspace s))" by (rule hd_dropWhile)
  with ne show ?thesis by (simp add: strip_rstrip rstrip_hd)
qed

lemma rstrip_id: "s = [] \<or> \<not> isspace (last s) \<Longrightarrow> rstrip s = s"
  by (induction s) (auto simp: rstrip_Cons rstrip_Nil split: if_splits)

lemma strip_id: "s = [] \<or> (\<not> isspace (hd s) \<and> \<not> isspace (last s)) \<Longrightarrow> strip s = s"
  by (cases s) (auto simp: strip_rstrip rstrip_id rstrip_Nil)


lemma strip_strip: "strip (strip s) = strip s"
  using strip_hd strip_last by (intro strip_id) blast

lemma collapse_ws_id:
  "collapsed s \<Longrightarrow> s = [] \<or> \<not> isspace (last s) \<Longrightarrow> collapse_ws s = s"
proof (induction s rule: collapsed.induct)
  case 1
  show ?case by simp
next
  case (2 c)
  then show ?case by simp
next
  case (3 c d cs)
  then show ?case by auto
qed

lemma strip_collapse_idem:
  "strip (collapse_ws (strip (collapse_ws t))) = strip (collapse_ws t)"
proof -
  let ?u = "strip (collapse_ws t)"
  have c: "collapsed ?u" by (simp add: collapsed_strip collapsed_collapse_ws)
  have e: "?u = [] \<or> (\<not> isspace (hd ?u) \<and> \<not> isspace (last ?u))"
    using strip_hd strip_last by blast
  then have "collapse_ws ?u = ?u" using c by (intro collapse_ws_id) auto
  moreover have "strip ?u = ?u" using e by (rule strip_id)
  ultimately show ?thesis by simp
qed

lemmas eval_str = str_def strip_def isspace_def

text \<open>
  C4. When the collapsed, trimmed text is longer than \<open>max_len\<close> characters (a character
  count, so not negative), \<open>normalize_text\<close> returns \<open>max_len\<close> characters plus the marker,
  and its first \<open>max_len\<close> characters are the first \<open>max_len\<close> characters of the collapsed
  text. For a negative \<open>max_chars\<close> the slice \<open>text[:max_chars]\<close> counts from the end
  instead (\<open>slice_to\<close>).
\<close>

theorem normalize_text_truncation:
  assumes "0 \<le> max_len" and "int (length (strip (collapse_ws text))) > max_len"
  shows "length (normalize_text text max_len) = nat max_len + length trunc_marker
       \<and> take (nat max_len) (normalize_text text max_len)
           = take (nat max_len) (strip (collapse_ws text))"
  using assms by (auto simp: normalize_text_def slice_to_def Let_def)

theorem normalize_text_truncation_witness:
  "(0::int) \<le> 3 \<and> int (length (strip (collapse_ws (str ''a   b  c  d '')))) > 3
   \<and> length (normalize_text (str ''a   b  c  d '') 3) = 12
   \<and> take 3 (normalize_text (str ''a   b  c  d '') 3) = str ''a b''
   \<and> normalize_text (str ''a   b  c  d '') 3 = str ''a b'' @ trunc_marker"
proof -
  have h: "int (length (strip (collapse_ws (str ''a   b  c  d '')))) > 3"
    by (simp add: eval_str)
  have n: "normalize_text (str ''a   b  c  d '') 3 = str ''a b'' @ trunc_marker"
    by (simp add: normalize_text_def slice_to_def eval_str)
  from normalize_text_truncation[of 3 "str ''a   b  c  d ''", OF _ h] h n
  show ?thesis by (simp add: trunc_marker_def str_def)
qed

text \<open>
  C5. For a text whose length after whitespace collapse and trimming is at most \<open>n\<close>,
  normalizing twice gives what normalizing once gives.
\<close>

theorem normalize_text_idempotent:
  assumes "int (length (strip (collapse_ws text))) \<le> n"
  shows "normalize_text (normalize_text text n) n = normalize_text text n"
proof -
  have 1: "normalize_text text n = strip (collapse_ws text)"
    using assms by (simp add: normalize_text_def Let_def)
  show ?thesis
    unfolding 1 using assms by (simp add: normalize_text_def Let_def strip_collapse_idem)
qed

theorem normalize_text_idempotent_witness:
  "int (length (strip (collapse_ws (str ''  a  b   c '')))) \<le> 5
   \<and> normalize_text (str ''  a  b   c '') 5 = str ''a b c''
   \<and> normalize_text (normalize_text (str ''  a  b   c '') 5) 5 = str ''a b c''"
proof -
  have h: "int (length (strip (collapse_ws (str ''  a  b   c '')))) \<le> 5"
    by (simp add: eval_str)
  have n: "normalize_text (str ''  a  b   c '') 5 = str ''a b c''"
    by (simp add: normalize_text_def eval_str)
  from normalize_text_idempotent[OF h] h n show ?thesis by simp
qed


section \<open>Body decoding\<close>

lemma b64_value_translate:
  "urlsafe_char c \<Longrightarrow>
   \<exists>v. b64_value (if c = 45 then 43 else if c = 95 then 47 else c) = Some v"
  by (auto simp: urlsafe_char_def b64_value_def)

lemma urlsafe_char_ascii: "urlsafe_char c \<Longrightarrow> c < 128 \<and> c \<noteq> 61"
  by (auto simp: urlsafe_char_def)

lemma a2b_loop_alphabet:
  assumes "\<forall>c\<in>set cs. c \<noteq> 61 \<and> b64_value c \<noteq> None" and "q < 4"
  shows "\<exists>l' out'. a2b_loop q p l out (cs @ rest)
           = a2b_loop ((q + length cs) mod 4) (if cs = [] then p else 0) l' out' rest"
  using assms
proof (induction cs arbitrary: q p l out)
  case Nil
  then show ?case by auto
next
  case (Cons c cs)
  from Cons.prems obtain v where v: "b64_value c = Some v" and c: "c \<noteq> 61" by auto
  from Cons.prems have rest: "\<forall>c\<in>set cs. c \<noteq> 61 \<and> b64_value c \<noteq> None" by simp
  consider "q = 0" | "q = 1" | "q = 2" | "q = 3" using Cons.prems(2) by linarith
  then show ?case
  proof cases
    case 1
    from Cons.IH[OF rest, of 1 0 v out] obtain l' out' where
      "a2b_loop 1 0 v out (cs @ rest)
         = a2b_loop ((1 + length cs) mod 4) (if cs = [] then 0 else 0) l' out' rest"
      by auto
    with 1 v c show ?thesis by (intro exI[of _ l'] exI[of _ out']) simp
  next
    case 2
    from Cons.IH[OF rest, of 2 0 "v mod 16" "out @ [l * 4 + v div 16]"] obtain l' out' where
      "a2b_loop 2 0 (v mod 16) (out @ [l * 4 + v div 16]) (cs @ rest)
         = a2b_loop ((2 + length cs) mod 4) (if cs = [] then 0 else 0) l' out' rest"
      by auto
    with 2 v c show ?thesis by (intro exI[of _ l'] exI[of _ out']) simp
  next
    case 3
    from Cons.IH[OF rest, of 3 0 "v mod 4" "out @ [l * 16 + v div 4]"] obtain l' out' where
      "a2b_loop 3 0 (v mod 4) (out @ [l * 16 + v div 4]) (cs @ rest)
         = a2b_loop ((3 + length cs) mod 4) (if cs = [] then 0 else 0) l' out' rest"
      by auto
    with 3 v c show ?thesis by (intro exI[of _ l'] exI[of _ out']) simp
  next
    case 4
    from Cons.IH[OF rest, of 0 0 0 "out @ [l * 64 + v]"] obtain l' out' where
      "a2b_loop 0 0 0 (out @ [l * 64 + v]) (cs @ rest)
         = a2b_loop ((0 + length cs) mod 4) (if cs = [] then 0 else 0) l' out' rest"
      by auto
    moreover have "(3 + length (c # cs)) mod 4 = length cs mod 4" by (simp add: mod_simps)
    ultimately show ?thesis using 4 v c by (intro exI[of _ l'] exI[of _ out']) simp
  qed
qed

lemma padding_cases:
  "nat ((- int n) mod 4) = (if n mod 4 = 0 then 0 else 4 - n mod 4)"
proof -
  have "(- int n) mod 4 = (if int n mod 4 = 0 then 0 else 4 - int n mod 4)"
    by (simp add: zmod_zminus1_eq_if)
  moreover have "int n mod 4 = int (n mod 4)" by (simp add: zmod_int)
  ultimately show ?thesis by (auto simp: nat_diff_distrib' simp del: of_nat_mod)
qed

lemma urlsafe_b64decode_padded:
  assumes "\<forall>c\<in>set data. urlsafe_char c"
  shows "\<exists>l out. urlsafe_b64decode (data @ replicate k 61)
           = a2b_loop (length data mod 4) 0 l out (replicate k 61)"
proof -
  let ?f = "\<lambda>c::nat. if c = 45 then 43 else if c = 95 then 47 else c"
  have ascii: "\<not> (\<exists>c\<in>set (data @ replicate k 61). 128 \<le> c)"
    using assms urlsafe_char_ascii by fastforce
  have m: "map ?f (data @ replicate k 61) = map ?f data @ replicate k 61" by simp
  have al: "\<forall>c\<in>set (map ?f data). c \<noteq> 61 \<and> b64_value c \<noteq> None"
  proof
    fix c assume "c \<in> set (map ?f data)"
    then obtain d where d: "d \<in> set data" and c: "c = ?f d" by auto
    from d assms have u: "urlsafe_char d" by simp
    from b64_value_translate[OF u] c have "b64_value c \<noteq> None" by auto
    moreover from u c have "c \<noteq> 61" by (auto simp: urlsafe_char_def)
    ultimately show "c \<noteq> 61 \<and> b64_value c \<noteq> None" by simp
  qed
  have z: "(0::nat) < 4" by simp
  from a2b_loop_alphabet[OF al z, of 0 0 "[]" "replicate k 61"]
  obtain l' out' where
    "a2b_loop 0 0 0 [] (map ?f data @ replicate k 61)
       = a2b_loop ((0 + length (map ?f data)) mod 4) (if map ?f data = [] then 0 else 0) l' out'
           (replicate k 61)"
    by blast
  then have "urlsafe_b64decode (data @ replicate k 61)
       = a2b_loop (length data mod 4) 0 l' out' (replicate k 61)"
    unfolding urlsafe_b64decode_def using ascii m by simp
  then show ?thesis by blast
qed

lemma replicate_2: "replicate 2 x = [x, x]"
  by (simp add: numeral_2_eq_2)

lemma replicate_3: "replicate 3 x = [x, x, x]"
  by (simp add: numeral_3_eq_3)




lemma decode_body_length_1_mod_4:
  assumes "\<forall>c\<in>set data. urlsafe_char c" and "length data mod 4 = 1"
  shows "decode_body data = Inl BinasciiError"
proof -
  let ?k = "nat ((- int (length data)) mod 4)"
  from urlsafe_b64decode_padded[OF assms(1), of ?k] obtain l out where
    d: "urlsafe_b64decode (data @ replicate ?k 61)
          = a2b_loop (length data mod 4) 0 l out (replicate ?k 61)"
    by blast
  from assms(2) have "?k = 3" by (simp add: padding_cases)
  with d assms(2) have "urlsafe_b64decode (data @ replicate ?k 61) = Inl BinasciiError"
    by (simp add: replicate_3)
  moreover from assms(2) have "data \<noteq> []" by auto
  ultimately show ?thesis by (simp add: decode_body_def Let_def)
qed


section \<open>MIME text extraction\<close>












lemmas eval_decode = decode_body_def urlsafe_b64decode_def b64_value_def replicate_2
  is_cont_def eval_str





section \<open>JSON decoding: the fuel is enough\<close>

lemma scanstring_plain:
  "c \<noteq> 34 \<Longrightarrow> c \<noteq> 92 \<Longrightarrow> scanstring acc (c # cs)
     = (if c \<le> 31 then Inl JSONDecodeError else scanstring (acc @ [c]) cs)"
  by simp

lemma scanstring_escape:
  "e \<noteq> 117 \<Longrightarrow> scanstring acc (92 # e # r0)
     = (case backslash e of None \<Rightarrow> Inl JSONDecodeError | Some ch \<Rightarrow> scanstring (acc @ [ch]) r0)"
  by simp

lemma scanstring_u_short:
  assumes "length r0 < 4"
  shows "scanstring acc (92 # 117 # r0) = Inl JSONDecodeError"
proof -
  from assms consider "r0 = []" | a where "r0 = [a]" | a b where "r0 = [a, b]"
    | a b c where "r0 = [a, b, c]"
    by (cases r0; cases "tl r0"; cases "tl (tl r0)"; cases "tl (tl (tl r0))") auto
  then show ?thesis by cases simp_all
qed

lemma scanstring_u_bad:
  "hex4 h1 h2 h3 h4 = None \<Longrightarrow>
   scanstring acc (92 # 117 # h1 # h2 # h3 # h4 # r1) = Inl JSONDecodeError"
  by simp

lemma scanstring_u_low:
  "hex4 h1 h2 h3 h4 = Some uu \<Longrightarrow> \<not> (55296 \<le> uu \<and> uu \<le> 56319) \<Longrightarrow>
   scanstring acc (92 # 117 # h1 # h2 # h3 # h4 # r1) = scanstring (acc @ [uu]) r1"
  by auto

lemma scanstring_u_high_short:
  assumes "hex4 h1 h2 h3 h4 = Some uu" and "55296 \<le> uu \<and> uu \<le> 56319" and "length r1 < 6"
  shows "scanstring acc (92 # 117 # h1 # h2 # h3 # h4 # r1) = scanstring (acc @ [uu]) r1"
proof -
  from assms(3) consider "r1 = []" | a where "r1 = [a]" | a b where "r1 = [a, b]"
    | a b c where "r1 = [a, b, c]" | a b c d where "r1 = [a, b, c, d]"
    | a b c d e where "r1 = [a, b, c, d, e]"
    by (cases r1; cases "tl r1"; cases "tl (tl r1)"; cases "tl (tl (tl r1))";
        cases "tl (tl (tl (tl r1)))"; cases "tl (tl (tl (tl (tl r1))))") auto
  then show ?thesis using assms(1,2) by cases simp_all
qed

lemma scanstring_u_high:
  assumes "hex4 h1 h2 h3 h4 = Some uu" and "55296 \<le> uu \<and> uu \<le> 56319"
  shows "scanstring acc (92 # 117 # h1 # h2 # h3 # h4 # b # v # k1 # k2 # k3 # k4 # r2)
     = (if b = 92 \<and> v = 117 then
          (case hex4 k1 k2 k3 k4 of
             None \<Rightarrow> Inl JSONDecodeError
           | Some u2 \<Rightarrow>
               if 56320 \<le> u2 \<and> u2 \<le> 57343
               then scanstring (acc @ [65536 + ((uu - 55296) * 1024 + (u2 - 56320))]) r2
               else scanstring (acc @ [uu]) (b # v # k1 # k2 # k3 # k4 # r2))
        else scanstring (acc @ [uu]) (b # v # k1 # k2 # k3 # k4 # r2))"
  using assms by simp

lemma scanstring_step:
  "(c = 34 \<and> scanstring acc (c # cs) = Inr (acc, cs))
   \<or> scanstring acc (c # cs) = Inl JSONDecodeError
   \<or> (\<exists>acc' s'. length s' \<le> length cs \<and> scanstring acc (c # cs) = scanstring acc' s')"
proof (cases "c = 34")
  case True
  then show ?thesis by simp
next
  case c34: False
  show ?thesis
  proof (cases "c = 92")
    case False
    have "length cs \<le> length cs" by simp
    then show ?thesis unfolding scanstring_plain[OF c34 False] by (cases "c \<le> 31") auto
  next
    case c92: True
    show ?thesis
    proof (cases cs)
      case Nil
      with c92 show ?thesis by simp
    next
      case (Cons e r0)
      have l0: "length r0 \<le> length cs" using Cons by simp
      show ?thesis
      proof (cases "e = 117")
        case False
        show ?thesis
        proof (cases "backslash e")
          case None
          show ?thesis unfolding c92 Cons scanstring_escape[OF False] None by simp
        next
          case (Some ch)
          have "\<exists>acc' s'. length s' \<le> length (e # r0)
              \<and> scanstring (acc @ [ch]) r0 = scanstring acc' s'"
            by (rule exI[of _ "acc @ [ch]"], rule exI[of _ r0]) simp
          then show ?thesis unfolding c92 Cons scanstring_escape[OF False] Some option.case
            by (rule disjI2[OF disjI2])
        qed
      next
        case u: True
        show ?thesis
        proof (cases "length r0 < 4")
          case True
          show ?thesis unfolding c92 Cons u scanstring_u_short[OF True] by simp
        next
          case False
          then obtain h1 h2 h3 h4 r1 where r0: "r0 = h1 # h2 # h3 # h4 # r1"
            by (cases r0; cases "tl r0"; cases "tl (tl r0)"; cases "tl (tl (tl r0))") auto
          have l1: "length r1 \<le> length (117 # h1 # h2 # h3 # h4 # r1)" by simp
          show ?thesis
          proof (cases "hex4 h1 h2 h3 h4")
            case None
            show ?thesis unfolding c92 Cons u r0 scanstring_u_bad[OF None] by simp
          next
            case (Some uu)
            show ?thesis
            proof (cases "55296 \<le> uu \<and> uu \<le> 56319")
              case False
              show ?thesis unfolding c92 Cons u r0 scanstring_u_low[OF Some False]
                using l1 by blast
            next
              case hi: True
              show ?thesis
              proof (cases "length r1 < 6")
                case True
                show ?thesis unfolding c92 Cons u r0 scanstring_u_high_short[OF Some hi True]
                  using l1 by blast
              next
                case False
                then obtain b v k1 k2 k3 k4 r2 where
                  r1: "r1 = b # v # k1 # k2 # k3 # k4 # r2"
                  by (cases r1; cases "tl r1"; cases "tl (tl r1)"; cases "tl (tl (tl r1))";
                      cases "tl (tl (tl (tl r1)))"; cases "tl (tl (tl (tl (tl r1))))") auto
                let ?cs = "117 # h1 # h2 # h3 # h4 # b # v # k1 # k2 # k3 # k4 # r2"
                have l2: "length r2 \<le> length ?cs"
                  and l3: "length (b # v # k1 # k2 # k3 # k4 # r2) \<le> length ?cs" by simp_all
                let ?lhs = "scanstring acc (92 # ?cs)"
                have "?lhs = Inl JSONDecodeError
                    \<or> ?lhs = scanstring (acc @ [uu]) (b # v # k1 # k2 # k3 # k4 # r2)
                    \<or> (\<exists>a'. ?lhs = scanstring a' r2)"
                  unfolding scanstring_u_high[OF Some hi]
                  by (cases "hex4 k1 k2 k3 k4") (auto simp del: scanstring.simps)
                with l2 l3 show ?thesis unfolding c92 Cons u r0 r1 by blast
              qed
            qed
          qed
        qed
      qed
    qed
  qed
qed

lemma scanstring_shorter: "scanstring acc s = Inr (t, r) \<Longrightarrow> length r < length s"
proof (induction "length s" arbitrary: s acc rule: less_induct)
  case less
  show ?case
  proof (cases s)
    case Nil
    with less.prems show ?thesis by simp
  next
    case (Cons c cs)
    from scanstring_step[of c acc cs] less.prems[unfolded Cons]
    consider "r = cs" | acc' s' where "length s' \<le> length cs" "scanstring acc' s' = Inr (t, r)"
      by (elim disjE exE conjE) auto
    then show ?thesis
    proof cases
      case 1
      with Cons show ?thesis by simp
    next
      case 2
      from 2(1) Cons have "length s' < length s" by simp
      from less.hyps[OF this 2(2)] 2(1) Cons show ?thesis by simp
    qed
  qed
qed

lemma scanstring_error: "scanstring acc s = Inl e \<Longrightarrow> e = JSONDecodeError"
proof (induction "length s" arbitrary: s acc rule: less_induct)
  case less
  show ?case
  proof (cases s)
    case Nil
    with less.prems show ?thesis by simp
  next
    case (Cons c cs)
    from scanstring_step[of c acc cs] less.prems[unfolded Cons]
    consider "e = JSONDecodeError"
      | acc' s' where "length s' \<le> length cs" "scanstring acc' s' = Inl e"
      by (elim disjE exE conjE) auto
    then show ?thesis
    proof cases
      case 1
      then show ?thesis .
    next
      case 2
      from 2(1) Cons have "length s' < length s" by simp
      from less.hyps[OF this 2(2)] show ?thesis .
    qed
  qed
qed


lemma number_int_shorter: "number_int s = Some (i, r) \<Longrightarrow> length r < length s"
proof -
  assume a: "number_int s = Some (i, r)"
  have d: "length (dropWhile isdigit xs) \<le> length xs" for xs
    by (rule length_dropWhile_le)
  show ?thesis
  proof (cases s)
    case Nil
    with a show ?thesis by (simp add: number_int_def)
  next
    case (Cons c t)
    show ?thesis
    proof (cases "c = 45")
      case True
      show ?thesis
      proof (cases t)
        case Nil
        with a Cons True show ?thesis by (simp add: number_int_def)
      next
        case c2: (Cons c' r1)
        with a Cons True have "r = r1 \<or> r = dropWhile isdigit r1"
          by (auto simp: number_int_def split: if_splits)
        with d[of r1] Cons c2 show ?thesis by auto
      qed
    next
      case False
      with a Cons have "r = t \<or> r = dropWhile isdigit t"
        by (auto simp: number_int_def split: if_splits)
      with d[of t] Cons show ?thesis by auto
    qed
  qed
qed

lemma number_frac_shorter: "length (snd (number_frac s)) \<le> length s"
proof -
  consider "s = []" | a where "s = [a]" | p d t where "s = p # d # t"
    by (cases s; cases "tl s") auto
  then show ?thesis
  proof cases
    case 3
    have "length (dropWhile isdigit t) \<le> length t" by (rule length_dropWhile_le)
    with 3 show ?thesis by (simp add: number_frac_def)
  qed (simp_all add: number_frac_def)
qed

lemma number_exp_shorter: "length (snd (number_exp s)) \<le> length s"
proof (cases s)
  case Nil
  then show ?thesis by (simp add: number_exp_def)
next
  case (Cons e t)
  define t2 where "t2 = (case t of [] \<Rightarrow> t | x # t1 \<Rightarrow> if x = 43 \<or> x = 45 then t1 else t)"
  have lt: "length t2 \<le> length t" unfolding t2_def by (cases t) auto
  have "snd (number_exp s) = s \<or> snd (number_exp s) = dropWhile isdigit t2"
    unfolding number_exp_def Cons t2_def by (cases t) (auto simp: Let_def)
  then show ?thesis
    using lt length_dropWhile_le[of isdigit t2] Cons by auto
qed

lemma match_number_shorter:
  assumes "match_number s = Some (i, fe, r)"
  shows "length r < length s"
proof -
  from assms obtain i' r2 where n: "number_int s = Some (i', r2)"
    by (cases "number_int s") (auto simp: match_number_def)
  with assms have "r = snd (number_exp (snd (number_frac r2)))"
    by (simp add: match_number_def Let_def split_beta)
  with number_exp_shorter[of "snd (number_frac r2)"] number_frac_shorter[of r2]
    number_int_shorter[OF n]
  show ?thesis by simp
qed

lemma skip_ws_shorter: "length (skip_ws s) \<le> length s"
  unfolding skip_ws_def by (rule length_dropWhile_le)

lemma skip_ws_Cons_shorter: "skip_ws s = d # r \<Longrightarrow> length r < length s"
  using skip_ws_shorter[of s] by simp

text \<open>
  With fuel for twice the text (and one or two more), no call of the scanner runs out of it,
  and every value it returns has consumed some of the text.
\<close>

lemma fuel_enough:
  "(\<forall>s. 2 * length s + 1 \<le> n \<longrightarrow>
       scan_once n s \<noteq> Inl RecursionError
       \<and> (\<forall>v r. scan_once n s = Inr (v, r) \<longrightarrow> length r < length s))
 \<and> (\<forall>acc s. 2 * length s + 1 \<le> n \<longrightarrow>
       parse_members n acc s \<noteq> Inl RecursionError
       \<and> (\<forall>v r. parse_members n acc s = Inr (v, r) \<longrightarrow> length r < length s))
 \<and> (\<forall>acc s. 2 * length s + 2 \<le> n \<longrightarrow>
       parse_elements n acc s \<noteq> Inl RecursionError
       \<and> (\<forall>v r. parse_elements n acc s = Inr (v, r) \<longrightarrow> length r < length s))"
proof (induction n)
  case 0
  show ?case by simp
next
  case (Suc n)
  then have IHs: "\<And>s. 2 * length s + 1 \<le> n \<Longrightarrow> scan_once n s \<noteq> Inl RecursionError"
    "\<And>s v r. 2 * length s + 1 \<le> n \<Longrightarrow> scan_once n s = Inr (v, r) \<Longrightarrow> length r < length s"
    and IHm: "\<And>acc s. 2 * length s + 1 \<le> n \<Longrightarrow> parse_members n acc s \<noteq> Inl RecursionError"
    "\<And>acc s v r. 2 * length s + 1 \<le> n \<Longrightarrow> parse_members n acc s = Inr (v, r)
       \<Longrightarrow> length r < length s"
    and IHe: "\<And>acc s. 2 * length s + 2 \<le> n \<Longrightarrow> parse_elements n acc s \<noteq> Inl RecursionError"
    "\<And>acc s v r. 2 * length s + 2 \<le> n \<Longrightarrow> parse_elements n acc s = Inr (v, r)
       \<Longrightarrow> length r < length s"
    by blast+
  have A: "scan_once (Suc n) s \<noteq> Inl RecursionError
       \<and> (\<forall>v r. scan_once (Suc n) s = Inr (v, r) \<longrightarrow> length r < length s)"
    if b: "2 * length s + 1 \<le> Suc n" for s
  proof (cases s)
    case Nil
    then show ?thesis by simp
  next
    case (Cons c cs)
    consider "c = 34" | "c = 123" | "c = 91" | "c \<noteq> 34 \<and> c \<noteq> 123 \<and> c \<noteq> 91" by blast
    then show ?thesis
    proof cases
      case 1
      show ?thesis
      proof (cases "scanstring [] cs")
        case (Inl e)
        with scanstring_error[OF Inl] 1 Cons show ?thesis by simp
      next
        case (Inr p)
        obtain t r where p: "p = (t, r)" by (cases p)
        from scanstring_shorter[OF Inr[unfolded p]] 1 Cons Inr p show ?thesis by auto
      qed
    next
      case 2
      show ?thesis
      proof (cases "skip_ws cs")
        case Nil
        with 2 Cons show ?thesis by simp
      next
        case c2: (Cons d r)
        from skip_ws_Cons_shorter[OF c2] have lr: "length r < length cs" .
        show ?thesis
        proof (cases "d = 125")
          case True
          with 2 Cons c2 lr show ?thesis by auto
        next
          case n125: False
          show ?thesis
          proof (cases "d = 34")
            case False
            with 2 Cons c2 n125 show ?thesis by simp
          next
            case True
            from b Cons lr have f: "2 * length r + 1 \<le> n" by simp
            have e: "scan_once (Suc n) s = parse_members n [] r"
              using 2 Cons c2 n125 True by simp
            from IHm(1)[OF f, of "[]"] IHm(2)[OF f, of "[]"] lr Cons show ?thesis
              unfolding e by fastforce
          qed
        qed
      qed
    next
      case 3
      show ?thesis
      proof (cases "skip_ws cs")
        case Nil
        with 3 Cons show ?thesis by simp
      next
        case c2: (Cons d r)
        from skip_ws_Cons_shorter[OF c2] have lr: "length r < length cs" .
        show ?thesis
        proof (cases "d = 93")
          case True
          with 3 Cons c2 lr show ?thesis by auto
        next
          case False
          from b Cons lr have f: "2 * length (d # r) + 2 \<le> n" by simp
          have e: "scan_once (Suc n) s = parse_elements n [] (d # r)"
            using 3 Cons c2 False by simp
          from IHe(1)[OF f, of "[]"] IHe(2)[OF f, of "[]"] lr Cons show ?thesis
            unfolding e by fastforce
        qed
      qed
    next
      case 4
      have dl: "0 < k \<Longrightarrow> length (drop k (c # cs)) < length (c # cs)" for k by simp
      show ?thesis
      proof (cases "match_number (c # cs)")
        case None
        with 4 Cons dl[of 4] dl[of 5] dl[of 3] dl[of 8] dl[of 9] show ?thesis
          by (auto simp del: drop_Suc_Cons length_drop)
      next
        case (Some m)
        obtain i fe r where m: "m = (i, fe, r)" by (cases m)
        from match_number_shorter[OF Some[unfolded m]] 4 Cons Some m
          dl[of 4] dl[of 5] show ?thesis
          by (auto simp del: drop_Suc_Cons length_drop)
      qed
    qed
  qed
  have B: "parse_members (Suc n) acc s \<noteq> Inl RecursionError
       \<and> (\<forall>v r. parse_members (Suc n) acc s = Inr (v, r) \<longrightarrow> length r < length s)"
    if b: "2 * length s + 1 \<le> Suc n" for acc s
  proof (cases "scanstring [] s")
    case (Inl e)
    with scanstring_error[OF Inl] show ?thesis by simp
  next
    case (Inr p)
    obtain key r where p: "p = (key, r)" by (cases p)
    from scanstring_shorter[OF Inr[unfolded p]] have l: "length r < length s" .
    show ?thesis
    proof (cases "skip_ws r")
      case Nil
      with Inr p show ?thesis by simp
    next
      case c1: (Cons c r1)
      from skip_ws_Cons_shorter[OF c1] have l1: "length r1 < length r" .
      show ?thesis
      proof (cases "c = 58")
        case False
        with Inr p c1 show ?thesis by simp
      next
        case True
        from b l l1 skip_ws_shorter[of r1] have f: "2 * length (skip_ws r1) + 1 \<le> n" by simp
        show ?thesis
        proof (cases "scan_once n (skip_ws r1)")
          case e: (Inl e)
          with IHs(1)[OF f] Inr p c1 True show ?thesis by simp
        next
          case v: (Inr q)
          obtain v' r2 where q: "q = (v', r2)" by (cases q)
          from IHs(2)[OF f v[unfolded q]] skip_ws_shorter[of r1]
          have l2: "length r2 < length r1" by simp
          show ?thesis
          proof (cases "skip_ws r2")
            case Nil
            with Inr p c1 True v q show ?thesis by simp
          next
            case c3: (Cons d r3)
            from skip_ws_Cons_shorter[OF c3] have l3: "length r3 < length r2" .
            show ?thesis
            proof (cases "d = 125")
              case True
              with Inr p c1 \<open>c = 58\<close> v q c3 l l1 l2 l3 show ?thesis by auto
            next
              case n125: False
              show ?thesis
              proof (cases "d = 44")
                case False
                with Inr p c1 \<open>c = 58\<close> v q c3 n125 show ?thesis by simp
              next
                case d44: True
                show ?thesis
                proof (cases "skip_ws r3")
                  case Nil
                  with Inr p c1 \<open>c = 58\<close> v q c3 n125 d44 show ?thesis by simp
                next
                  case c4: (Cons q' r4)
                  from skip_ws_Cons_shorter[OF c4] have l4: "length r4 < length r3" .
                  show ?thesis
                  proof (cases "q' = 34")
                    case False
                    with Inr p c1 \<open>c = 58\<close> v q c3 n125 d44 c4 show ?thesis by simp
                  next
                    case True
                    from b l l1 l2 l3 l4 have f4: "2 * length r4 + 1 \<le> n" by simp
                    have e: "parse_members (Suc n) acc s
                        = parse_members n (acc @ [(key, v')]) r4"
                      using Inr p c1 \<open>c = 58\<close> v q c3 n125 d44 c4 True by simp
                    from IHm(1)[OF f4, of "acc @ [(key, v')]"]
                      IHm(2)[OF f4, of "acc @ [(key, v')]"] l l1 l2 l3 l4
                    show ?thesis unfolding e by fastforce
                  qed
                qed
              qed
            qed
          qed
        qed
      qed
    qed
  qed
  have C: "parse_elements (Suc n) acc s \<noteq> Inl RecursionError
       \<and> (\<forall>v r. parse_elements (Suc n) acc s = Inr (v, r) \<longrightarrow> length r < length s)"
    if b: "2 * length s + 2 \<le> Suc n" for acc s
  proof -
    from b have f: "2 * length s + 1 \<le> n" by simp
    show ?thesis
    proof (cases "scan_once n s")
      case (Inl e)
      with IHs(1)[OF f] show ?thesis by simp
    next
      case (Inr q)
      obtain v' r where q: "q = (v', r)" by (cases q)
      from IHs(2)[OF f Inr[unfolded q]] have l: "length r < length s" .
      show ?thesis
      proof (cases "skip_ws r")
        case Nil
        with Inr q show ?thesis by simp
      next
        case c1: (Cons d r1)
        from skip_ws_Cons_shorter[OF c1] have l1: "length r1 < length r" .
        show ?thesis
        proof (cases "d = 93")
          case True
          with Inr q c1 l l1 show ?thesis by auto
        next
          case n93: False
          show ?thesis
          proof (cases "d = 44")
            case False
            with Inr q c1 n93 show ?thesis by simp
          next
            case True
            from b l l1 skip_ws_shorter[of r1] have f2: "2 * length (skip_ws r1) + 2 \<le> n"
              by simp
            have e: "parse_elements (Suc n) acc s
                = parse_elements n (acc @ [v']) (skip_ws r1)"
              using Inr q c1 n93 True by simp
            from IHe(1)[OF f2, of "acc @ [v']"] IHe(2)[OF f2, of "acc @ [v']"]
              l l1 skip_ws_shorter[of r1]
            show ?thesis unfolding e by fastforce
          qed
        qed
      qed
    qed
  qed
  from A B C show ?case by blast
qed

lemma json_loads_fuel: "json_loads s \<noteq> Inl RecursionError"
proof -
  have "2 * length (skip_ws s) + 1 \<le> Suc (Suc (length s + length s))"
    using skip_ws_shorter[of s] by simp
  with fuel_enough[of "Suc (Suc (length s + length s))"]
  have "scan_once (Suc (Suc (length s + length s))) (skip_ws s) \<noteq> Inl RecursionError"
    by blast
  then show ?thesis
    by (auto simp: json_loads_def split: sum.splits prod.splits)
qed


section \<open>The answer of the text-generation collaborator\<close>

lemmas eval_json = json_loads_def skip_ws_def json_ws_def match_number_def number_int_def
  number_frac_def number_exp_def isdigit_def
  hexval_def hex4_def backslash_def

lemmas eval_response = parse_response_def parse_loose_json_def search_braces_def
  strip_fence_start_def strip_fence_end_def rfind_char_def slice_def degraded_def

lemma find_char_bounds:
  "find_char s c \<noteq> - 1 \<Longrightarrow>
   0 \<le> find_char s c \<and> nat (find_char s c) < length s \<and> s ! nat (find_char s c) = c"
proof (induction s)
  case Nil
  then show ?case by simp
next
  case (Cons x xs)
  show ?case
  proof (cases "x = c")
    case True
    then show ?thesis by simp
  next
    case False
    with Cons.prems have ne: "find_char xs c \<noteq> - 1" by (auto simp: Let_def split: if_splits)
    from Cons.IH[OF ne] have ih: "0 \<le> find_char xs c" "nat (find_char xs c) < length xs"
      "xs ! nat (find_char xs c) = c" by auto
    from False ne have f: "find_char (x # xs) c = find_char xs c + 1" by (simp add: Let_def)
    from ih(1) have n: "nat (find_char xs c + 1) = Suc (nat (find_char xs c))" by simp
    from ih show ?thesis unfolding f n by simp
  qed
qed

lemma find_char_hd: "find_char (c # s) c = 0"
  by simp

lemma rfind_char_bounds:
  assumes "rfind_char s c \<noteq> - 1"
  shows "0 \<le> rfind_char s c \<and> nat (rfind_char s c) < length s \<and> s ! nat (rfind_char s c) = c"
proof -
  let ?i = "find_char (rev s) c"
  from assms have ne: "?i \<noteq> - 1" by (auto simp: rfind_char_def Let_def split: if_splits)
  from find_char_bounds[OF ne] have b: "0 \<le> ?i" "nat ?i < length s" "rev s ! nat ?i = c"
    by auto
  from ne have r: "rfind_char s c = int (length s) - 1 - ?i" by (simp add: rfind_char_def Let_def)
  from b have n: "nat (int (length s) - 1 - ?i) = length s - Suc (nat ?i)" by linarith
  from b(2,3) have "s ! (length s - Suc (nat ?i)) = c" by (simp add: rev_nth)
  with b show ?thesis unfolding r n by (simp; linarith)
qed

lemma rfind_char_last: "rfind_char (s @ [c]) c = int (length s)"
  by (simp add: rfind_char_def)

text \<open>The braces span starts with \<open>{\<close>, ends with \<open>}\<close> and is the span of itself.\<close>

lemma search_braces_span:
  assumes "search_braces t = Some m"
  shows "find_char t 123 \<noteq> - 1 \<and> rfind_char t 125 \<noteq> - 1
       \<and> find_char t 123 < rfind_char t 125
       \<and> m = slice t (find_char t 123) (rfind_char t 125 + 1)
       \<and> (\<exists>u. m = 123 # u @ [125])"
proof -
  let ?a = "find_char t 123" and ?e = "rfind_char t 125"
  from assms have a: "?a \<noteq> - 1" and lt: "?a < ?e" and m: "m = slice t ?a (?e + 1)"
    by (auto simp: search_braces_def Let_def split: if_splits)
  from find_char_bounds[OF a] have ab: "0 \<le> ?a" "nat ?a < length t" "t ! nat ?a = 123" by auto
  from ab(1) lt have e: "?e \<noteq> - 1" by linarith
  from rfind_char_bounds[OF e] have eb: "0 \<le> ?e" "nat ?e < length t" "t ! nat ?e = 125" by auto
  define k where "k = nat ?e - nat ?a"
  from ab eb lt have k: "0 < k" "nat ?a + k < length t" "nat (?e + 1) - nat ?a = Suc k"
    "nat ?a + k = nat ?e" unfolding k_def by linarith+
  have m': "m = take (Suc k) (drop (nat ?a) t)" using m k(3) by (simp add: slice_def)
  have len: "length m = Suc k" using k(2) unfolding m' by simp
  have h: "m ! 0 = 123" using ab(3) k(2) unfolding m' by simp
  have l: "m ! k = 125" using eb(3) k(2,4) unfolding m' by simp
  from len k(1) obtain x u y where u: "m = x # u @ [y]"
    by (metis Suc_length_conv append_butlast_last_id length_0_conv nat.simps(3) not_gr_zero)
  with len have lu: "length u = k - 1" by simp
  from u h have "x = 123" by simp
  moreover from u l lu k(1) have "y = 125"
    by (metis One_nat_def Suc_pred len length_Cons length_append_singleton nth_Cons_Suc
        nth_append_length)
  ultimately have "\<exists>u. m = 123 # u @ [125]" using u by blast
  with a e lt m show ?thesis by blast
qed

lemma slice_whole: "slice (123 # u @ [125]) (find_char (123 # u @ [125]) 123)
    (rfind_char (123 # u @ [125]) 125 + 1) = 123 # u @ [125]"
proof -
  have r: "rfind_char ((123 # u) @ [125]) 125 = int (length (123 # u))" by (rule rfind_char_last)
  show ?thesis using r by (simp add: slice_def)
qed

lemma parse_loose_json_span:
  assumes "search_braces t = Some m" and "json_loads t = Inl JSONDecodeError"
  shows "parse_loose_json t = json_loads m"
  using search_braces_span[OF assms(1)] assms(2) by (simp add: parse_loose_json_def Let_def)

lemma parse_loose_json_no_braces:
  assumes "search_braces t = None" and "json_loads t = Inl JSONDecodeError"
  shows "parse_loose_json t = Inl JSONDecodeError"
  using assms by (auto simp: parse_loose_json_def search_braces_def Let_def split: if_splits)

lemma parse_loose_json_again:
  assumes "search_braces t = Some m" and "json_loads m = Inl JSONDecodeError"
  shows "parse_loose_json m = Inl JSONDecodeError"
proof -
  from search_braces_span[OF assms(1)] obtain u where u: "m = 123 # u @ [125]" by blast
  show ?thesis
    using assms(2) slice_whole[of u] unfolding u by (simp add: parse_loose_json_def Let_def)
qed

text \<open>
  What the parsing stage returns for a non-empty answer text \<open>t\<close> (fences stripped): the value
  of the strict parse when it succeeds; otherwise, when the text has a \<open>{\<close> with a \<open>}\<close> after
  it, the outcome of the strict parse of that span, an exception included; the degraded
  result only when there is no such span.
\<close>

lemma parse_response_outcome:
  assumes "collect_candidates [] cands = Some out" and "strip out \<noteq> []"
    and "t = strip_fence_end (strip_fence_start (strip out))"
  shows "parse_response text cands =
     (if json_loads t = Inl JSONDecodeError then
        (case search_braces t of
           None \<Rightarrow> Inr (degraded text summary_parse_failed)
         | Some m \<Rightarrow> json_loads m)
      else json_loads t)"
proof (cases "json_loads t = Inl JSONDecodeError")
  case True
  show ?thesis
  proof (cases "search_braces t")
    case None
    from parse_loose_json_no_braces[OF None True] None True assms show ?thesis
      by (simp add: parse_response_def Let_def)
  next
    case (Some m)
    have 1: "parse_loose_json t = json_loads m" using Some True by (rule parse_loose_json_span)
    show ?thesis
    proof (cases "json_loads m = Inl JSONDecodeError")
      case e: True
      from parse_loose_json_again[OF Some e] 1 e Some True assms show ?thesis
        by (simp add: parse_response_def Let_def)
    next
      case False
      with 1 Some True assms show ?thesis
        by (cases "json_loads m") (auto simp: parse_response_def Let_def split: error.splits)
    qed
  qed
next
  case False
  then have "parse_loose_json t = json_loads t"
    by (cases "json_loads t") (auto simp: parse_loose_json_def split: error.splits)
  with False assms show ?thesis
    by (cases "json_loads t") (auto simp: parse_response_def Let_def split: error.splits)
qed

lemma collect_candidates_None:
  "collect_candidates acc cands = None \<longleftrightarrow> (\<exists>c\<in>set cands. finishReason c = Some (str ''SAFETY''))"
  by (induction cands arbitrary: acc) auto

lemma parse_response_raises_on_braces:
  "parse_response (str ''in'')
     [\<lparr>finishReason = Some (str ''STOP''), content_parts = [str ''{abc}'']\<rparr>]
   = Inl JSONDecodeError"
  by (simp add: eval_response eval_json eval_str)

lemma parse_response_degraded_example:
  "parse_response (str ''in'')
     [\<lparr>finishReason = Some (str ''STOP''), content_parts = [str ''abc'']\<rparr>]
   = Inr (degraded (str ''in'') summary_parse_failed)"
  by (simp add: eval_response eval_json eval_str)

lemma parse_response_ok_example:
  "parse_response (str ''in'')
     [\<lparr>finishReason = Some (str ''STOP''), content_parts = [str ''```json {} ```'']\<rparr>]
   = Inr (JObject [])"
  by (simp add: eval_response eval_json eval_str)

lemmas eval_world = demo_world_def demo_answer_def demo_message_def empty_state_def env_def

text \<open>
  C1. The claim is that parsing never raises and ends in the degraded result when every
  attempt fails. The code runs its last attempt, \<open>parse_loose_json(match.group(0))\<close>, inside
  the \<open>except\<close> block and unguarded: for the answer text \<open>{abc}\<close> every strict parse fails,
  and \<open>json.JSONDecodeError\<close> leaves \<open>gemini_translate_and_summarize\<close>.
\<close>

theorem gemini_raises_on_unparsable_braces:
  "gemini_text demo_world (str ''z'')
     = \<lparr>text_status = 200,
        candidates = [\<lparr>finishReason = Some (str ''STOP''), content_parts = [str ''{abc}'']\<rparr>]\<rparr>
   \<and> json_loads (str ''{abc}'') = Inl JSONDecodeError
   \<and> gemini_translate_and_summarize demo_world st (str ''z'')
       = (Inl JSONDecodeError, st\<lparr>text_calls := text_calls st @ [str ''z'']\<rparr>)"
  by (simp add: gemini_translate_and_summarize_def eval_world eval_response eval_json eval_str)

text \<open>
  C6. With the API key configured and a 200 answer that has candidates, all of them blocked
  for safety, the invoker returns the degraded result with the safety placeholder as its
  summary; the run is not aborted. (With no candidate at all the answer text is empty and
  the summary is the empty-output placeholder.)
\<close>

theorem safety_blocked_degraded:
  assumes "env (environ W) (str ''GEMINI_API_KEY'') None True = Inr api_key"
    and "text_status (gemini_text W text) = 200"
    and "candidates (gemini_text W text) \<noteq> []"
    and "\<forall>c\<in>set (candidates (gemini_text W text)). finishReason c = Some (str ''SAFETY'')"
  shows "gemini_translate_and_summarize W st text
       = (Inr (JObject [(str ''language'', JString (str ''unknown'')),
                        (str ''translated_text'', JString text),
                        (str ''summary_zh_tw'', JString summary_safety)]),
          st\<lparr>text_calls := text_calls st @ [text]\<rparr>)"
proof -
  from assms(3,4) have "\<exists>c\<in>set (candidates (gemini_text W text)).
      finishReason c = Some (str ''SAFETY'')"
    by (cases "candidates (gemini_text W text)") auto
  then have "collect_candidates [] (candidates (gemini_text W text)) = None"
    by (simp only: collect_candidates_None)
  then have "parse_response text (candidates (gemini_text W text))
      = Inr (degraded text summary_safety)"
    by (simp add: parse_response_def)
  with assms(1,2) show ?thesis
    by (simp add: gemini_translate_and_summarize_def Let_def degraded_def)
qed

theorem safety_blocked_degraded_witness:
  "env (environ demo_world) (str ''GEMINI_API_KEY'') None True = Inr (str ''k'')
   \<and> gemini_text demo_world (str ''x'')
       = \<lparr>text_status = 200,
          candidates = [\<lparr>finishReason = Some (str ''SAFETY''), content_parts = []\<rparr>]\<rparr>
   \<and> gemini_translate_and_summarize demo_world empty_state (str ''x'')
       = (Inr (JObject [(str ''language'', JString (str ''unknown'')),
                        (str ''translated_text'', JString (str ''x'')),
                        (str ''summary_zh_tw'', JString summary_safety)]),
          \<lparr>files = {}, text_calls = [str ''x''], image_calls = []\<rparr>)"
proof -
  have k: "env (environ demo_world) (str ''GEMINI_API_KEY'') None True = Inr (str ''k'')"
    by (simp add: eval_world str_def)
  have a: "gemini_text demo_world (str ''x'')
       = \<lparr>text_status = 200,
          candidates = [\<lparr>finishReason = Some (str ''SAFETY''), content_parts = []\<rparr>]\<rparr>"
    by (simp add: eval_world)
  have s: "text_status (gemini_text demo_world (str ''x'')) = 200" unfolding a by simp
  have n: "candidates (gemini_text demo_world (str ''x'')) \<noteq> []" unfolding a by simp
  have b: "\<forall>c\<in>set (candidates (gemini_text demo_world (str ''x''))).
             finishReason c = Some (str ''SAFETY'')"
    unfolding a by simp
  from safety_blocked_degraded[OF k s n b, of empty_state]
  have "gemini_translate_and_summarize demo_world empty_state (str ''x'')
       = (Inr (JObject [(str ''language'', JString (str ''unknown'')),
                        (str ''translated_text'', JString (str ''x'')),
                        (str ''summary_zh_tw'', JString summary_safety)]),
          \<lparr>files = {}, text_calls = [str ''x''], image_calls = []\<rparr>)"
    by (simp add: empty_state_def)
  with k a show ?thesis by (intro conjI)
qed

lemma empty_candidates_empty_output:
  "parse_response text [] = Inr (degraded text summary_empty)"
  by (simp add: parse_response_def strip_def)


section \<open>Image prompt\<close>

lemma close_scan_found:
  "\<forall>x\<in>set pre. \<not> tag_close x \<and> x \<noteq> 10 \<Longrightarrow> tag_close k \<Longrightarrow>
   close_scan (pre @ k # rest) = Some rest"
  by (induction pre) (auto simp: tag_close_def)

lemma close_scan_none:
  "\<forall>x\<in>set (takeWhile (\<lambda>x. x \<noteq> 10) cs). \<not> tag_close x \<Longrightarrow> close_scan cs = None"
  by (induction cs) (auto simp: tag_close_def)

lemma strip_tag_strips:
  assumes "tag_open c" and "\<forall>x\<in>set pre. \<not> tag_close x \<and> x \<noteq> 10" and "tag_close k"
  shows "strip_tag (c # pre @ k # rest) = dropWhile isspace rest"
  using assms(1) close_scan_found[OF assms(2,3), of rest]
  by (simp add: strip_tag_def tag_open_def)

lemma strip_tag_keeps:
  assumes "subject = [] \<or> \<not> tag_open (hd subject)
           \<or> (\<forall>x\<in>set (takeWhile (\<lambda>x. x \<noteq> 10) (tl subject)). \<not> tag_close x)"
  shows "strip_tag subject = subject"
proof (cases subject)
  case Nil
  then show ?thesis by (simp add: strip_tag_def)
next
  case (Cons c cs)
  show ?thesis
  proof (cases "tag_open c")
    case False
    with Cons show ?thesis by (simp add: strip_tag_def tag_open_def)
  next
    case True
    with assms Cons have "\<forall>x\<in>set (takeWhile (\<lambda>x. x \<noteq> 10) cs). \<not> tag_close x" by simp
    then have "close_scan cs = None" by (rule close_scan_none)
    with Cons show ?thesis by (simp add: strip_tag_def)
  qed
qed

lemma sublist_after_prefix:
  assumes "x \<notin> set p"
  shows "sublist (x # xs) (p @ s) \<longleftrightarrow> sublist (x # xs) s"
proof
  assume "sublist (x # xs) (p @ s)"
  then obtain ps ss where e: "p @ s = ps @ (x # xs) @ ss" by (auto simp: sublist_def)
  then obtain us where "(p = ps @ us \<and> us @ s = (x # xs) @ ss)
      \<or> (p @ us = ps \<and> s = us @ (x # xs) @ ss)"
    by (auto simp: append_eq_append_conv2)
  then show "sublist (x # xs) s"
  proof
    assume a: "p = ps @ us \<and> us @ s = (x # xs) @ ss"
    show ?thesis
    proof (cases us)
      case Nil
      with a have "s = [] @ (x # xs) @ ss" by simp
      then show ?thesis unfolding sublist_def by blast
    next
      case (Cons u us')
      with a have "u = x" by simp
      with a Cons assms show ?thesis by simp
    qed
  next
    assume "p @ us = ps \<and> s = us @ (x # xs) @ ss"
    then show ?thesis unfolding sublist_def by blast
  qed
next
  assume "sublist (x # xs) s"
  then obtain ps ss where "s = ps @ (x # xs) @ ss" by (auto simp: sublist_def)
  then have "p @ s = (p @ ps) @ (x # xs) @ ss" by simp
  then show "sublist (x # xs) (p @ s)" unfolding sublist_def by blast
qed

lemma build_image_prompt_eq:
  "build_image_prompt subject summary
     = prompt_preamble @ str ''Inspired by: '' @ strip (strip_tag subject) @ str ''. ''
       @ str ''Summary: '' @ take 400 (strip (collapse_ws summary))"
  by (simp add: build_image_prompt_def Let_def)

lemma tech_subject_clean: "strip (strip_tag tech_subject) = str ''Big news today''"
  by (simp add: tech_subject_def tech_tag_def strip_tag_def eval_str)

lemma tech_prefix_free:
  "12304 \<notin> set (prompt_preamble @ str ''Inspired by: '' @ str ''Big news today'' @ str ''. ''
      @ str ''Summary: '')"
  by (simp add: prompt_preamble_def str_def)

text \<open>
  C9, as the code has it. The closing class of the pattern takes any of \<open>]\<close>, U+3011 and
  \<open>)\<close> after any opener, so the tag \<open>[a)\<close> is stripped though \<open>)\<close> does not correspond to
  \<open>[\<close>; and the summary is copied into the prompt, so for the subject of the example and
  the summary U+3010 \<open>Tech\<close> U+3011 the prompt contains that tag.
\<close>

theorem build_image_prompt_counterexample:
  "build_image_prompt (str ''[a)b'') [] = prompt_preamble @ str ''Inspired by: b. Summary: ''
   \<and> build_image_prompt tech_subject tech_tag
       = (prompt_preamble @ str ''Inspired by: Big news today. Summary: '') @ tech_tag @ []
   \<and> sublist tech_tag (build_image_prompt tech_subject tech_tag)"
proof -
  have 1: "build_image_prompt (str ''[a)b'') []
             = prompt_preamble @ str ''Inspired by: b. Summary: ''"
    by (simp add: build_image_prompt_def strip_tag_def eval_str)
  have 2: "build_image_prompt tech_subject tech_tag
       = (prompt_preamble @ str ''Inspired by: Big news today. Summary: '') @ tech_tag @ []"
    unfolding build_image_prompt_eq tech_subject_clean
    by (simp add: tech_tag_def eval_str)
  have 3: "sublist tech_tag (build_image_prompt tech_subject tech_tag)"
    unfolding 2 sublist_def by blast
  from 1 2 3 show ?thesis by (intro conjI)
qed

text \<open>
  C9, amended. \<open>build_image_prompt\<close> strips a leading tag that opens with one of \<open>[\<close>,
  U+3010, \<open>(\<close> and runs to the first following \<open>]\<close>, U+3011 or \<open>)\<close> on the same line,
  whichever opener it follows, with the whitespace after it; a subject with no such tag is
  kept. The summary is collapsed, trimmed and cut to at most 400 characters with no marker.
  For the subject of the example the subject part of the prompt is \<open>Big news today\<close>, and
  the prompt contains the tag exactly when the collapsed, capped summary contains it.
\<close>

theorem build_image_prompt_spec:
  "build_image_prompt subject summary
     = prompt_preamble @ str ''Inspired by: '' @ strip (strip_tag subject) @ str ''. ''
       @ str ''Summary: '' @ take 400 (strip (collapse_ws summary))
   \<and> length (take 400 (strip (collapse_ws summary))) \<le> 400
   \<and> (tag_open c \<and> (\<forall>x\<in>set pre. \<not> tag_close x \<and> x \<noteq> 10) \<and> tag_close k
        \<longrightarrow> strip_tag (c # pre @ k # rest) = dropWhile isspace rest)
   \<and> (subject = [] \<or> \<not> tag_open (hd subject)
        \<or> (\<forall>x\<in>set (takeWhile (\<lambda>x. x \<noteq> 10) (tl subject)). \<not> tag_close x)
        \<longrightarrow> strip_tag subject = subject)
   \<and> build_image_prompt tech_subject summary
       = prompt_preamble @ str ''Inspired by: '' @ str ''Big news today'' @ str ''. ''
         @ str ''Summary: '' @ take 400 (strip (collapse_ws summary))
   \<and> (sublist tech_tag (build_image_prompt tech_subject summary)
        \<longleftrightarrow> sublist tech_tag (take 400 (strip (collapse_ws summary))))"
proof -
  let ?s = "take 400 (strip (collapse_ws summary))"
  let ?p = "prompt_preamble @ str ''Inspired by: '' @ str ''Big news today'' @ str ''. ''
      @ str ''Summary: ''"
  have t: "build_image_prompt tech_subject summary = ?p @ ?s"
    unfolding build_image_prompt_eq tech_subject_clean by simp
  have "sublist tech_tag (?p @ ?s) \<longleftrightarrow> sublist tech_tag ?s"
    unfolding tech_tag_def using tech_prefix_free by (rule sublist_after_prefix)
  with t have i: "sublist tech_tag (build_image_prompt tech_subject summary)
        \<longleftrightarrow> sublist tech_tag ?s" by simp
  have a: "tag_open c \<and> (\<forall>x\<in>set pre. \<not> tag_close x \<and> x \<noteq> 10) \<and> tag_close k
        \<longrightarrow> strip_tag (c # pre @ k # rest) = dropWhile isspace rest"
    using strip_tag_strips by blast
  have b: "subject = [] \<or> \<not> tag_open (hd subject)
        \<or> (\<forall>x\<in>set (takeWhile (\<lambda>x. x \<noteq> 10) (tl subject)). \<not> tag_close x)
        \<longrightarrow> strip_tag subject = subject"
    using strip_tag_keeps by blast
  have l: "length ?s \<le> 400" by simp
  from build_image_prompt_eq[of subject summary] l a b t[unfolded append_assoc] i
  show ?thesis by (intro conjI)
qed

theorem build_image_prompt_spec_witness:
  "tag_open 91 \<and> list_all (\<lambda>x. \<not> tag_close x \<and> x \<noteq> 10) (str ''a'') \<and> tag_close 41
   \<and> strip_tag (91 # str ''a'' @ 41 # str '' b'') = str ''b''
   \<and> \<not> tag_open (hd (str ''News [x]'')) \<and> strip_tag (str ''News [x]'') = str ''News [x]''
   \<and> build_image_prompt (str ''News [x]'') (str ''a   b'')
       = prompt_preamble @ str ''Inspired by: News [x]. Summary: a b''
   \<and> build_image_prompt tech_subject (str ''a   b'')
       = prompt_preamble @ str ''Inspired by: Big news today. Summary: a b''
   \<and> \<not> sublist tech_tag (build_image_prompt tech_subject (str ''a   b''))"
proof -
  note w = build_image_prompt_spec[of "str ''News [x]''" "str ''a   b''" 91 "str ''a''" 41
      "str '' b''"]
  have o: "tag_open 91" by (simp add: tag_open_def)
  have c: "tag_close 41" by (simp add: tag_close_def)
  have p: "\<forall>x\<in>set (str ''a''). \<not> tag_close x \<and> x \<noteq> 10" by (simp add: str_def tag_close_def)
  have n: "\<not> tag_open (hd (str ''News [x]''))" by (simp add: str_def tag_open_def)
  have s: "take 400 (strip (collapse_ws (str ''a   b''))) = str ''a b''" by (simp add: eval_str)
  have d: "dropWhile isspace (str '' b'') = str ''b''" by (simp add: eval_str)
  have k: "strip (str ''News [x]'') = str ''News [x]''" by (simp add: eval_str)
  from w o c p have 1: "strip_tag (91 # str ''a'' @ 41 # str '' b'') = str ''b''"
    unfolding d by blast
  from w n have 2: "strip_tag (str ''News [x]'') = str ''News [x]''" by blast
  from w have "build_image_prompt (str ''News [x]'') (str ''a   b'')
     = prompt_preamble @ str ''Inspired by: '' @ strip (strip_tag (str ''News [x]'')) @ str ''. ''
       @ str ''Summary: '' @ take 400 (strip (collapse_ws (str ''a   b'')))" by blast
  then have 3: "build_image_prompt (str ''News [x]'') (str ''a   b'')
       = prompt_preamble @ str ''Inspired by: News [x]. Summary: a b''"
    unfolding 2 k s by (simp add: str_def)
  from w have "build_image_prompt tech_subject (str ''a   b'')
       = prompt_preamble @ str ''Inspired by: '' @ str ''Big news today'' @ str ''. ''
         @ str ''Summary: '' @ take 400 (strip (collapse_ws (str ''a   b'')))" by blast
  then have 4: "build_image_prompt tech_subject (str ''a   b'')
       = prompt_preamble @ str ''Inspired by: Big news today. Summary: a b''"
    unfolding s by (simp add: str_def)
  have "\<not> sublist tech_tag (str ''a b'')"
    by (auto simp: tech_tag_def str_def sublist_Cons_right prefix_Cons)
  with w have 5: "\<not> sublist tech_tag (build_image_prompt tech_subject (str ''a   b''))"
    unfolding s by blast
  from p have p': "list_all (\<lambda>x. \<not> tag_close x \<and> x \<noteq> 10) (str ''a'')"
    by (simp add: list_all_iff)
  from o p' c 1 n 2 3 4 5 show ?thesis by (intro conjI)
qed


section \<open>The loop of main\<close>

lemma gemini_frame:
  "gemini_translate_and_summarize W st text = (r, st') \<Longrightarrow>
   files st' = files st \<and> image_calls st' = image_calls st"
  by (auto simp: gemini_translate_and_summarize_def Let_def split: sum.splits if_splits)

lemma generate_image_effect:
  assumes "generate_image W st prompt out_path = (r, st')"
  shows "files st \<subseteq> files st'
       \<and> (image_calls st' = image_calls st \<or> image_calls st' = image_calls st @ [(prompt, out_path)])
       \<and> (r = Inr () \<longrightarrow> out_path \<in> files st'
             \<and> image_calls st' = image_calls st @ [(prompt, out_path)])"
  using assms
  by (auto simp: generate_image_def Let_def
      split: sum.splits if_splits list.splits option.splits)

lemma image_step_present:
  assumes "path_join (images_dir W) (msg_id @ str ''.png'') \<in> files st"
  shows "\<exists>p. image_step W st msg_id subject summary translated = (Inr p, st)"
  using assms by (simp add: image_step_def Let_def)

lemma image_step_enabled:
  assumes "env (environ W) (str ''ENABLE_IMAGE_GEN'') (Some (str ''1'')) False = Inr (str ''1'')"
    and "image_step W st msg_id subject summary translated = (Inr p, st')"
  shows "p = str ''images/'' @ msg_id @ str ''.png''
       \<and> path_join (images_dir W) (msg_id @ str ''.png'') \<in> files st'
       \<and> (path_join (images_dir W) (msg_id @ str ''.png'') \<notin> files st \<longrightarrow>
            image_calls st' = image_calls st @
              [(build_image_prompt subject (if summary \<noteq> [] then summary else translated),
                path_join (images_dir W) (msg_id @ str ''.png''))])"
proof (cases "path_join (images_dir W) (msg_id @ str ''.png'') \<in> files st")
  case True
  with assms show ?thesis by (simp add: image_step_def Let_def)
next
  case False
  let ?path = "path_join (images_dir W) (msg_id @ str ''.png'')"
  let ?prompt = "build_image_prompt subject (if summary \<noteq> [] then summary else translated)"
  obtain r st1 where g: "generate_image W st ?prompt ?path = (r, st1)" by (cases "generate_image W st ?prompt ?path")
  with assms False have r: "r = Inr ()" and s: "st' = st1"
    and p: "p = str ''images/'' @ msg_id @ str ''.png''"
    by (auto simp: image_step_def Let_def split: sum.splits)
  from generate_image_effect[OF g] r s p False show ?thesis by simp
qed

text \<open>A pass of the loop body that returns either skipped the message or appended one entry.\<close>

lemma process_message_Inr:
  assumes "process_message L W (entries, st) msg_id = (Inr entries', st')"
  shows "(entries' = entries \<and> st' = st)
       \<or> (\<exists>msg t ai st1 translated summary p e.
            gmail_message W msg_id = (200, msg)
          \<and> extract_text_from_payload L (payload msg) = Inr t
          \<and> normalize_text t 12000 \<noteq> []
          \<and> gemini_translate_and_summarize W st (normalize_text t 12000) = (Inr ai, st1)
          \<and> ai_fields ai = Inr (translated, summary)
          \<and> image_step W st1 msg_id (entry_subject e) summary translated = (Inr p, st')
          \<and> entries' = entries @ [e]
          \<and> entry_id e = msg_id
          \<and> original_text e = normalize_text t 12000
          \<and> translated_text e = (if translated \<noteq> [] then translated else normalize_text t 12000)
          \<and> summary_zh_tw e = (if summary \<noteq> [] then summary else [40, 28961, 25688, 35201, 41]))"
proof -
  obtain status msg where m: "gmail_message W msg_id = (status, msg)"
    by (cases "gmail_message W msg_id")
  with assms have s: "status = 200" by (auto simp: process_message_def Let_def split: if_splits)
  from assms m s obtain t where t: "extract_text_from_payload L (payload msg) = Inr t"
    by (cases "extract_text_from_payload L (payload msg)")
       (auto simp: process_message_def Let_def)
  show ?thesis
  proof (cases "normalize_text t 12000 = []")
    case True
    with assms m s t show ?thesis by (simp add: process_message_def Let_def)
  next
    case False
    obtain r st1 where g: "gemini_translate_and_summarize W st (normalize_text t 12000) = (r, st1)"
      by (cases "gemini_translate_and_summarize W st (normalize_text t 12000)")
    from assms m s t False g obtain ai where ai: "r = Inr ai"
      by (cases r) (auto simp: process_message_def Let_def)
    from assms m s t False g ai obtain translated summary where
      f: "ai_fields ai = Inr (translated, summary)"
      by (cases "ai_fields ai") (auto simp: process_message_def Let_def)
    let ?subject = "if get_header L (headers msg) (str ''Subject'') = []
                    then [40, 28961, 27161, 38988, 41]
                    else get_header L (headers msg) (str ''Subject'')"
    obtain r2 st2 where i: "image_step W st1 msg_id ?subject summary translated = (r2, st2)"
      by (cases "image_step W st1 msg_id ?subject summary translated")
    from assms m s t False g ai f i obtain p where p: "r2 = Inr p"
      by (cases r2) (auto simp: process_message_def Let_def)
    from assms m s t False g ai f i p show ?thesis
      by (auto simp: process_message_def Let_def)
  qed
qed

lemma image_step_calls:
  assumes "image_step W st msg_id subject summary translated = (r, st')"
  shows "files st \<subseteq> files st'
       \<and> (image_calls st' = image_calls st
          \<or> (path_join (images_dir W) (msg_id @ str ''.png'') \<notin> files st
             \<and> (\<exists>prompt. image_calls st' = image_calls st @
                   [(prompt, path_join (images_dir W) (msg_id @ str ''.png''))])))"
proof -
  let ?path = "path_join (images_dir W) (msg_id @ str ''.png'')"
  let ?prompt = "build_image_prompt subject (if summary \<noteq> [] then summary else translated)"
  show ?thesis
  proof (cases "env (environ W) (str ''ENABLE_IMAGE_GEN'') (Some (str ''1'')) False = Inr (str ''1'')
      \<and> ?path \<notin> files st")
    case False
    with assms have "st' = st" by (auto simp: image_step_def Let_def split: if_splits)
    then show ?thesis by simp
  next
    case True
    obtain r1 st1 where g: "generate_image W st ?prompt ?path = (r1, st1)"
      by (cases "generate_image W st ?prompt ?path")
    with assms True have "st' = st1" by (auto simp: image_step_def Let_def split: sum.splits)
    with generate_image_effect[OF g] True show ?thesis by auto
  qed
qed

text \<open>
  Any pass of the loop body, whatever its outcome: no file disappears, and the image
  collaborator is called at most once, and only when the image file is not there.
\<close>

lemma process_message_calls:
  assumes "process_message L W (entries, st) msg_id = (r, st')"
  shows "files st \<subseteq> files st'
       \<and> (image_calls st' = image_calls st
          \<or> (path_join (images_dir W) (msg_id @ str ''.png'') \<notin> files st
             \<and> (\<exists>prompt. image_calls st' = image_calls st @
                   [(prompt, path_join (images_dir W) (msg_id @ str ''.png''))])))"
proof -
  obtain status msg where m: "gmail_message W msg_id = (status, msg)"
    by (cases "gmail_message W msg_id")
  show ?thesis
  proof (cases "status = 200")
    case False
    with assms m show ?thesis by (simp add: process_message_def Let_def)
  next
    case s: True
    show ?thesis
    proof (cases "extract_text_from_payload L (payload msg)")
      case (Inl e)
      with assms m s show ?thesis by (simp add: process_message_def Let_def)
    next
      case (Inr t)
      show ?thesis
      proof (cases "normalize_text t 12000 = []")
        case True
        with assms m s Inr show ?thesis by (simp add: process_message_def Let_def)
      next
        case False
        obtain r1 st1 where
          g: "gemini_translate_and_summarize W st (normalize_text t 12000) = (r1, st1)"
          by (cases "gemini_translate_and_summarize W st (normalize_text t 12000)")
        from gemini_frame[OF g] have fr: "files st1 = files st" "image_calls st1 = image_calls st"
          by auto
        show ?thesis
        proof (cases r1)
          case (Inl e)
          with assms m s Inr False g fr show ?thesis by (simp add: process_message_def Let_def)
        next
          case ai: (Inr ai)
          show ?thesis
          proof (cases "ai_fields ai")
            case (Inl e)
            with assms m s Inr False g ai fr show ?thesis
              by (simp add: process_message_def Let_def)
          next
            case f: (Inr ts)
            obtain translated summary where ts: "ts = (translated, summary)" by (cases ts)
            let ?subject = "if get_header L (headers msg) (str ''Subject'') = []
                    then [40, 28961, 27161, 38988, 41]
                    else get_header L (headers msg) (str ''Subject'')"
            obtain r2 st2 where
              i: "image_step W st1 msg_id ?subject summary translated = (r2, st2)"
              by (cases "image_step W st1 msg_id ?subject summary translated")
            from assms m s Inr False g ai f ts i have "st' = st2"
              by (cases r2) (auto simp: process_message_def Let_def)
            with image_step_calls[OF i] fr show ?thesis by simp
          qed
        qed
      qed
    qed
  qed
qed

lemma main_loop_good:
  assumes "main_loop L W (entries, st) ids = (Inr out, st')"
    and "\<forall>e\<in>set entries. original_text e \<noteq> [] \<and> translated_text e \<noteq> [] \<and> summary_zh_tw e \<noteq> []"
  shows "\<forall>e\<in>set out. original_text e \<noteq> [] \<and> translated_text e \<noteq> [] \<and> summary_zh_tw e \<noteq> []"
  using assms
proof (induction ids arbitrary: entries st)
  case Nil
  then show ?case by simp
next
  case (Cons msg_id ids)
  obtain r st1 where p: "process_message L W (entries, st) msg_id = (r, st1)"
    by (cases "process_message L W (entries, st) msg_id")
  with Cons.prems(1) obtain entries1 where r: "r = Inr entries1"
    by (cases r) auto
  from Cons.prems(1) p r have l: "main_loop L W (entries1, st1) ids = (Inr out, st')" by simp
  from process_message_Inr[OF p[unfolded r]] Cons.prems(2)
  have "\<forall>e\<in>set entries1.
      original_text e \<noteq> [] \<and> translated_text e \<noteq> [] \<and> summary_zh_tw e \<noteq> []"
    by (auto split: if_splits)
  from Cons.IH[OF l this] show ?case .
qed

lemmas eval_main = process_message_def image_step_def generate_image_def
  gemini_translate_and_summarize_def ai_fields_def ai_get_def normalize_value_def
  normalize_text_def slice_to_def b64decode_def path_join_def ascii_lib_def decoded_def
  eval_world eval_response eval_json eval_decode

text \<open>
  C7. A message whose extracted, normalized text is empty is skipped: the loop body returns
  the entries and the state as they were, so no request is sent to the text or to the image
  collaborator, no file is written and no record is appended; the loop goes on as if the
  message id had not been listed.
\<close>

theorem empty_text_skipped:
  assumes "gmail_message W msg_id = (200, msg)"
    and "extract_text_from_payload L (payload msg) = Inr t"
    and "normalize_text t 12000 = []"
  shows "process_message L W (entries, st) msg_id = (Inr entries, st)
       \<and> main_loop L W (entries, st) (msg_id # ids) = main_loop L W (entries, st) ids"
proof -
  have "process_message L W (entries, st) msg_id = (Inr entries, st)"
    using assms by (simp add: process_message_def Let_def)
  then show ?thesis by simp
qed

theorem empty_text_skipped_witness:
  "gmail_message demo_world (str ''m2'') = (200, demo_message (str ''m2''))
   \<and> extract_text_from_payload ascii_lib (payload (demo_message (str ''m2''))) = Inr []
   \<and> normalize_text [] 12000 = []
   \<and> process_message ascii_lib demo_world ([], empty_state) (str ''m2'') = (Inr [], empty_state)
   \<and> main_loop ascii_lib demo_world ([], empty_state) [str ''m2'', str ''m2'']
       = (Inr [], empty_state)"
proof -
  have g: "gmail_message demo_world (str ''m2'') = (200, demo_message (str ''m2''))"
    by (simp add: demo_world_def)
  have x: "extract_text_from_payload ascii_lib (payload (demo_message (str ''m2''))) = Inr []"
    by (simp add: demo_message_def eval_str)
  have n: "normalize_text [] 12000 = []" by (simp add: normalize_text_def strip_def)
  note w = empty_text_skipped[OF g x n, of "[]" empty_state]
  from w[of "[]"] have 1: "process_message ascii_lib demo_world ([], empty_state) (str ''m2'')
      = (Inr [], empty_state)" by blast
  from w[of "[str ''m2'']"] 1
  have 2: "main_loop ascii_lib demo_world ([], empty_state) [str ''m2'', str ''m2'']
       = (Inr [], empty_state)" by simp
  from g x n 1 2 show ?thesis by (intro conjI)
qed

text \<open>
  C10. A pass of the loop body that returns appends at most one entry; the entry's
  \<open>original_text\<close> is the non-empty normalized text sent to the collaborator, its
  \<open>translated_text\<close> is the normalized translation of the answer or, when that is empty, the
  original text, and its \<open>summary_zh_tw\<close> is the normalized summary or, when that is empty,
  the placeholder. So every entry of the list the loop returns has the three fields
  non-empty.
\<close>

theorem entries_have_text:
  "(process_message L W (entries, st) msg_id = (Inr entries', st') \<longrightarrow>
      entries' = entries
      \<or> (\<exists>e ai st1 translated summary.
            entries' = entries @ [e]
          \<and> original_text e \<noteq> []
          \<and> gemini_translate_and_summarize W st (original_text e) = (Inr ai, st1)
          \<and> ai_fields ai = Inr (translated, summary)
          \<and> translated_text e = (if translated \<noteq> [] then translated else original_text e)
          \<and> summary_zh_tw e = (if summary \<noteq> [] then summary else [40, 28961, 25688, 35201, 41])
          \<and> translated_text e \<noteq> [] \<and> summary_zh_tw e \<noteq> []))
   \<and> (main_loop L W ([], st0) ids = (Inr out, st2) \<longrightarrow>
        (\<forall>e\<in>set out. original_text e \<noteq> [] \<and> translated_text e \<noteq> [] \<and> summary_zh_tw e \<noteq> []))"
proof (intro conjI impI)
  assume p: "process_message L W (entries, st) msg_id = (Inr entries', st')"
  from process_message_Inr[OF p]
  show "entries' = entries
      \<or> (\<exists>e ai st1 translated summary.
            entries' = entries @ [e]
          \<and> original_text e \<noteq> []
          \<and> gemini_translate_and_summarize W st (original_text e) = (Inr ai, st1)
          \<and> ai_fields ai = Inr (translated, summary)
          \<and> translated_text e = (if translated \<noteq> [] then translated else original_text e)
          \<and> summary_zh_tw e = (if summary \<noteq> [] then summary else [40, 28961, 25688, 35201, 41])
          \<and> translated_text e \<noteq> [] \<and> summary_zh_tw e \<noteq> [])"
  proof
    assume "entries' = entries \<and> st' = st"
    then show ?thesis by simp
  next
    assume "\<exists>msg t ai st1 translated summary p e.
            gmail_message W msg_id = (200, msg)
          \<and> extract_text_from_payload L (payload msg) = Inr t
          \<and> normalize_text t 12000 \<noteq> []
          \<and> gemini_translate_and_summarize W st (normalize_text t 12000) = (Inr ai, st1)
          \<and> ai_fields ai = Inr (translated, summary)
          \<and> image_step W st1 msg_id (entry_subject e) summary translated = (Inr p, st')
          \<and> entries' = entries @ [e]
          \<and> entry_id e = msg_id
          \<and> original_text e = normalize_text t 12000
          \<and> translated_text e = (if translated \<noteq> [] then translated else normalize_text t 12000)
          \<and> summary_zh_tw e = (if summary \<noteq> [] then summary else [40, 28961, 25688, 35201, 41])"
    then obtain t ai st1 translated summary e where
      h: "normalize_text t 12000 \<noteq> []"
        "gemini_translate_and_summarize W st (normalize_text t 12000) = (Inr ai, st1)"
        "ai_fields ai = Inr (translated, summary)"
        "entries' = entries @ [e]"
        "original_text e = normalize_text t 12000"
        "translated_text e = (if translated \<noteq> [] then translated else normalize_text t 12000)"
        "summary_zh_tw e = (if summary \<noteq> [] then summary else [40, 28961, 25688, 35201, 41])"
      by blast
    have "entries' = entries @ [e]
          \<and> original_text e \<noteq> []
          \<and> gemini_translate_and_summarize W st (original_text e) = (Inr ai, st1)
          \<and> ai_fields ai = Inr (translated, summary)
          \<and> translated_text e = (if translated \<noteq> [] then translated else original_text e)
          \<and> summary_zh_tw e = (if summary \<noteq> [] then summary else [40, 28961, 25688, 35201, 41])
          \<and> translated_text e \<noteq> [] \<and> summary_zh_tw e \<noteq> []"
      using h by simp
    then show ?thesis by blast
  qed
next
  assume "main_loop L W ([], st0) ids = (Inr out, st2)"
  then show "\<forall>e\<in>set out.
      original_text e \<noteq> [] \<and> translated_text e \<noteq> [] \<and> summary_zh_tw e \<noteq> []"
    by (rule main_loop_good) simp
qed

lemmas eval_entry = extract_category_def closer_def extract_source_def strip_quotes_def
  build_thumb_html_def html_escape_def bq_def summary_safety_def Let_def

theorem entries_have_text_witness:
  "(case main_loop ascii_lib demo_world ([], empty_state) [str ''m1'', str ''m2'', str ''m3''] of
      (Inr out, st) \<Rightarrow>
        map (\<lambda>e. (entry_id e, original_text e, translated_text e, summary_zh_tw e)) out
    | (Inl e, st) \<Rightarrow> [])
     = [(str ''m1'', str ''x'', str ''x'', summary_safety),
        (str ''m3'', str ''y'', str ''y'', [40, 28961, 25688, 35201, 41])]
   \<and> (case main_loop ascii_lib demo_world ([], empty_state) [str ''m1'', str ''m2'', str ''m3''] of
        (Inr out, st) \<Rightarrow>
          list_all (\<lambda>e. original_text e \<noteq> [] \<and> translated_text e \<noteq> [] \<and> summary_zh_tw e \<noteq> [])
            out
      | (Inl e, st) \<Rightarrow> False)"
proof -
  let ?run = "main_loop ascii_lib demo_world ([], empty_state) [str ''m1'', str ''m2'', str ''m3'']"
  have ev: "(case ?run of
      (Inr out, st) \<Rightarrow>
        map (\<lambda>e. (entry_id e, original_text e, translated_text e, summary_zh_tw e)) out
    | (Inl e, st) \<Rightarrow> [])
     = [(str ''m1'', str ''x'', str ''x'', summary_safety),
        (str ''m3'', str ''y'', str ''y'', [40, 28961, 25688, 35201, 41])]"
    by (simp add: eval_main eval_entry)
  obtain r st where run: "?run = (r, st)" by (cases ?run)
  with ev obtain out where r: "r = Inr out" by (cases r) auto
  from entries_have_text[of ascii_lib demo_world "[]" empty_state "[]" "[]" empty_state
      empty_state "[str ''m1'', str ''m2'', str ''m3'']" out st] run r
  have "\<forall>e\<in>set out. original_text e \<noteq> [] \<and> translated_text e \<noteq> [] \<and> summary_zh_tw e \<noteq> []"
    by blast
  then have "list_all (\<lambda>e. original_text e \<noteq> [] \<and> translated_text e \<noteq> [] \<and> summary_zh_tw e \<noteq> [])
            out" by (simp add: list_all_iff)
  with run r have 2: "(case ?run of
        (Inr out, st) \<Rightarrow>
          list_all (\<lambda>e. original_text e \<noteq> [] \<and> translated_text e \<noteq> [] \<and> summary_zh_tw e \<noteq> [])
            out
      | (Inl e, st) \<Rightarrow> False)" by simp
  from ev 2 show ?thesis by (intro conjI)
qed

text \<open>
  C8. With images enabled the relative path of the image of a message is
  \<open>images/{id}.png\<close>. When the file is there, the pass of the loop body sends no request to
  the image collaborator. When it is not there and the pass appends its entry, exactly one
  request is sent and the file exists afterwards, so that a second pass for the same id,
  in any later run that resolves the same path, sends none: one request in all.
\<close>

theorem image_gate:
  assumes "env (environ W) (str ''ENABLE_IMAGE_GEN'') (Some (str ''1'')) False = Inr (str ''1'')"
  shows "(image_step W st msg_id subject summary translated = (Inr p, st1) \<longrightarrow>
            p = str ''images/'' @ msg_id @ str ''.png'')
       \<and> (path_join (images_dir W) (msg_id @ str ''.png'') \<in> files st \<longrightarrow>
            image_calls (snd (process_message L W (entries, st) msg_id)) = image_calls st)
       \<and> (path_join (images_dir W) (msg_id @ str ''.png'') \<notin> files st
            \<and> process_message L W (entries, st) msg_id = (Inr entries', st')
            \<and> entries' \<noteq> entries \<longrightarrow>
            path_join (images_dir W) (msg_id @ str ''.png'') \<in> files st'
            \<and> (\<exists>prompt. image_calls st' = image_calls st @
                   [(prompt, path_join (images_dir W) (msg_id @ str ''.png''))])
            \<and> (\<forall>L2 W2 entries2. images_dir W2 = images_dir W \<longrightarrow>
                  image_calls (snd (process_message L2 W2 (entries2, st') msg_id))
                    = image_calls st'))"
proof -
  let ?path = "path_join (images_dir W) (msg_id @ str ''.png'')"
  have 1: "image_step W st msg_id subject summary translated = (Inr p, st1) \<longrightarrow>
            p = str ''images/'' @ msg_id @ str ''.png''"
    using image_step_enabled[OF assms] by blast
  have 2: "?path \<in> files st \<longrightarrow>
            image_calls (snd (process_message L W (entries, st) msg_id)) = image_calls st"
  proof
    assume f: "?path \<in> files st"
    have "process_message L W (entries, st) msg_id
        = (fst (process_message L W (entries, st) msg_id),
           snd (process_message L W (entries, st) msg_id))" by simp
    from process_message_calls[OF this] f
    show "image_calls (snd (process_message L W (entries, st) msg_id)) = image_calls st"
      by blast
  qed
  have 3: "?path \<notin> files st
            \<and> process_message L W (entries, st) msg_id = (Inr entries', st')
            \<and> entries' \<noteq> entries \<longrightarrow>
            ?path \<in> files st'
            \<and> (\<exists>prompt. image_calls st' = image_calls st @ [(prompt, ?path)])
            \<and> (\<forall>L2 W2 entries2. images_dir W2 = images_dir W \<longrightarrow>
                  image_calls (snd (process_message L2 W2 (entries2, st') msg_id))
                    = image_calls st')"
  proof
    assume a: "?path \<notin> files st
            \<and> process_message L W (entries, st) msg_id = (Inr entries', st')
            \<and> entries' \<noteq> entries"
    then have nf: "?path \<notin> files st"
      and pm: "process_message L W (entries, st) msg_id = (Inr entries', st')"
      and ne: "entries' \<noteq> entries" by blast+
    from process_message_Inr[OF pm] ne
    obtain t ai sta translated' summary' p' and e :: entry where
      g: "gemini_translate_and_summarize W st (normalize_text t 12000) = (Inr ai, sta)"
      and i: "image_step W sta msg_id (entry_subject e) summary' translated' = (Inr p', st')"
      by blast
    from gemini_frame[OF g] have fr: "files sta = files st" "image_calls sta = image_calls st"
      by auto
    from image_step_enabled[OF assms i] nf fr
    have ex: "?path \<in> files st'"
      and calls: "image_calls st' = image_calls st @
        [(build_image_prompt (entry_subject e)
            (if summary' \<noteq> [] then summary' else translated'), ?path)]"
      by auto
    have again: "\<forall>L2 W2 entries2. images_dir W2 = images_dir W \<longrightarrow>
        image_calls (snd (process_message L2 W2 (entries2, st') msg_id)) = image_calls st'"
    proof (intro allI impI)
      fix L2 :: stdlib and W2 :: world and entries2 :: "entry list"
      assume d: "images_dir W2 = images_dir W"
      have "process_message L2 W2 (entries2, st') msg_id
        = (fst (process_message L2 W2 (entries2, st') msg_id),
           snd (process_message L2 W2 (entries2, st') msg_id))" by simp
      from process_message_calls[OF this] ex d
      show "image_calls (snd (process_message L2 W2 (entries2, st') msg_id)) = image_calls st'"
        by auto
    qed
    from ex calls again
    show "?path \<in> files st'
        \<and> (\<exists>prompt. image_calls st' = image_calls st @ [(prompt, ?path)])
        \<and> (\<forall>L2 W2 entries2. images_dir W2 = images_dir W \<longrightarrow>
              image_calls (snd (process_message L2 W2 (entries2, st') msg_id)) = image_calls st')"
      by blast
  qed
  from 1 2 3 show ?thesis by (intro conjI)
qed

lemma run_m1:
  "process_message ascii_lib demo_world ([], empty_state) (str ''m1'')
   = (Inr [\<lparr>entry_id = str ''m1'',
            entry_subject = str ''[Tech) Hi'',
            entry_from = str ''a@b.c'',
            entry_date = [],
            original_text = str ''x'',
            translated_text = str ''x'',
            summary_zh_tw = summary_safety,
            category = str ''Tech'',
            source = str ''a@b.c'',
            thumb_html = str ''<img class='' @ bq @ str ''thumb'' @ bq @ str '' src='' @ bq
              @ str ''images/m1.png'' @ bq @ str '' alt='' @ bq @ bq @ str ''>''\<rparr>],
      \<lparr>files = {str ''public/images/m1.png''},
       text_calls = [str ''x''],
       image_calls = [(build_image_prompt (str ''[Tech) Hi'') summary_safety,
                       str ''public/images/m1.png'')]\<rparr>)"
  by (simp add: eval_main eval_entry)

theorem image_gate_witness:
  "env (environ demo_world) (str ''ENABLE_IMAGE_GEN'') (Some (str ''1'')) False = Inr (str ''1'')
   \<and> path_join (images_dir demo_world) (str ''m1'' @ str ''.png'') = str ''public/images/m1.png''
   \<and> files empty_state = {}
   \<and> files (snd (process_message ascii_lib demo_world ([], empty_state) (str ''m1'')))
       = {str ''public/images/m1.png''}
   \<and> image_calls (snd (process_message ascii_lib demo_world ([], empty_state) (str ''m1'')))
       = [(build_image_prompt (str ''[Tech) Hi'') summary_safety, str ''public/images/m1.png'')]
   \<and> image_calls (snd (process_message ascii_lib demo_world
          ([], snd (process_message ascii_lib demo_world ([], empty_state) (str ''m1'')))
          (str ''m1'')))
       = [(build_image_prompt (str ''[Tech) Hi'') summary_safety, str ''public/images/m1.png'')]"
proof -
  let ?st1 = "\<lparr>files = {str ''public/images/m1.png''},
       text_calls = [str ''x''],
       image_calls = [(build_image_prompt (str ''[Tech) Hi'') summary_safety,
                       str ''public/images/m1.png'')]\<rparr>"
  have en: "env (environ demo_world) (str ''ENABLE_IMAGE_GEN'') (Some (str ''1'')) False
      = Inr (str ''1'')"
    by (simp add: eval_world str_def)
  have pa: "path_join (images_dir demo_world) (str ''m1'' @ str ''.png'')
      = str ''public/images/m1.png''"
    by (simp add: path_join_def demo_world_def str_def)
  have fe: "files empty_state = {}" by (simp add: empty_state_def)
  have nf: "path_join (images_dir demo_world) (str ''m1'' @ str ''.png'') \<notin> files empty_state"
    unfolding fe by simp
  obtain es where run: "process_message ascii_lib demo_world ([], empty_state) (str ''m1'')
      = (Inr es, ?st1)" and ne: "es \<noteq> []"
    using run_m1 by blast
  from image_gate[OF en, of empty_state "str ''m1''" "[]" "[]" "[]" "[]" empty_state
      ascii_lib "[]" es ?st1] nf run ne
  have "\<forall>L2 W2 entries2. images_dir W2 = images_dir demo_world \<longrightarrow>
      image_calls (snd (process_message L2 W2 (entries2, ?st1) (str ''m1''))) = image_calls ?st1"
    by blast
  then have "image_calls (snd (process_message ascii_lib demo_world ([], ?st1) (str ''m1'')))
      = image_calls ?st1" by blast
  then have 2: "image_calls (snd (process_message ascii_lib demo_world
          ([], snd (process_message ascii_lib demo_world ([], empty_state) (str ''m1'')))
          (str ''m1'')))
       = [(build_image_prompt (str ''[Tech) Hi'') summary_safety, str ''public/images/m1.png'')]"
    unfolding run by simp
  have 3: "files (snd (process_message ascii_lib demo_world ([], empty_state) (str ''m1'')))
       = {str ''public/images/m1.png''}" unfolding run by simp
  have 4: "image_calls (snd (process_message ascii_lib demo_world ([], empty_state) (str ''m1'')))
       = [(build_image_prompt (str ''[Tech) Hi'') summary_safety, str ''public/images/m1.png'')]"
    unfolding run by simp
  from en pa fe 3 4 2 show ?thesis by (intro conjI)
qed


end
